theory Spec2Isabelle
  imports Complex_Main "HOL-Library.Monad_Syntax"
begin

section \<open>The cost type\<close>

text \<open>
  The solver is a class template over a numeric type \<open>T\<close> that has an infinity
  (\<open>static_assert(std::numeric_limits<T>::has_infinity)\<close>). The values of \<open>T\<close> are
  modelled as real numbers extended by the single value \<open>vFill = +infinity\<close>; NaN and
  negative infinity are outside the model. Every subtraction and addition of the source has
  a finite right operand (the source guards them with \<open>h != vFill\<close> and replaces an
  infinite column minimum by zero), so the right operand is a \<open>real\<close>. The sections that
  follow take the arithmetic of \<open>T\<close> to be exact; the rounding and the overflow of a
  floating-point \<open>T\<close> are the subject of the section on a cost type that rounds.
\<close>

datatype ecost = Fin real | Inf

fun ec_less :: "ecost \<Rightarrow> ecost \<Rightarrow> bool" where
  "ec_less (Fin a) (Fin b) = (a < b)"
| "ec_less (Fin a) Inf = True"
| "ec_less Inf b = False"

text \<open>\<open>std::min(a, b)\<close> returns \<open>b\<close> when \<open>b < a\<close> and \<open>a\<close> otherwise.\<close>

definition std_min :: "ecost \<Rightarrow> ecost \<Rightarrow> ecost" where
  "std_min a b = (if ec_less b a then b else a)"

fun minus_T :: "ecost \<Rightarrow> real \<Rightarrow> ecost" where
  "minus_T (Fin a) h = Fin (a - h)"
| "minus_T Inf h = Inf"

fun plus_T :: "ecost \<Rightarrow> real \<Rightarrow> ecost" where
  "plus_T (Fin a) h = Fin (a + h)"
| "plus_T Inf h = Inf"

text \<open>
  \<open>*std::min_element(first, last)\<close>: the first smallest element of a range. The source
  never applies it to an empty range (a row has \<open>numCol\<close> cells and the loop over rows is
  empty when \<open>numCol = 0\<close>; \<open>workerCosts\<close> has at least one slot); the model returns
  \<open>Inf\<close> there.
\<close>

definition min_element :: "ecost list \<Rightarrow> ecost" where
  "min_element xs = (case xs of [] \<Rightarrow> Inf
     | x # ys \<Rightarrow> fold (\<lambda>y m. if ec_less y m then y else m) ys x)"

section \<open>The solver state\<close>

text \<open>
  The data members of \<open>class Hungarian\<close>. The marker \<open>static_cast<size_t>(-1)\<close> of
  \<open>starredZeros\<close> is \<open>None\<close>: a column index is below \<open>numCol\<close>, which is below the
  marker, and the source compares against the marker before every use as an index. The
  vector \<open>index\<close> holds \<open>row * numCol\<close> and is written out as that product; the vector
  \<open>workers\<close> of thread handles is represented by its size.
\<close>

record hungarian =
  numCol :: nat
  numRow :: nat
  colCovered :: "bool list"
  rowCovered :: "bool list"
  cost :: "ecost list"
  zeros :: "nat list list"
  primedZeros :: "nat list"
  starredZeros :: "nat option list"
  rowSequence :: "nat list"
  colSequence :: "nat list"
  colInds :: "nat list"
  workers :: nat
  workerRows :: "nat list"
  workerCosts :: "ecost list"

text \<open>
  The constructor; \<open>hc\<close> is the value of \<open>std::thread::hardware_concurrency()\<close>.
  \<open>primedZeros(numRow)\<close> and \<open>workerCosts(workers.size())\<close> are value-initialised.
\<close>

definition Hungarian :: "nat \<Rightarrow> nat \<Rightarrow> nat \<Rightarrow> hungarian" where
  "Hungarian hc rows columns =
     (let n = max rows columns; w = max hc 1 in
      \<lparr> numCol = n, numRow = n,
        colCovered = replicate n False, rowCovered = replicate n False,
        cost = replicate (n * n) Inf,
        zeros = replicate n [],
        primedZeros = replicate n 0,
        starredZeros = replicate n None,
        rowSequence = [], colSequence = [], colInds = [],
        workers = w,
        workerRows = replicate (w + 1) 0,
        workerCosts = replicate w (Fin 0) \<rparr>)"

definition setCost :: "nat \<Rightarrow> nat \<Rightarrow> ecost \<Rightarrow> hungarian \<Rightarrow> hungarian" where
  "setCost row col c s = s\<lparr>cost := (cost s)[row * numCol s + col := c]\<rparr>"

text \<open>The cell \<open>cost[index[row] + col]\<close>.\<close>

definition cell :: "hungarian \<Rightarrow> nat \<Rightarrow> nat \<Rightarrow> ecost" where
  "cell s row col = cost s ! (row * numCol s + col)"

text \<open>
  \<open>std::transform\<close> over the cells \<open>[b, b + n)\<close> of the cost vector, in place: with a
  unary operation, and with a binary operation whose second argument runs over another
  vector.
\<close>

definition transform_row :: "(ecost \<Rightarrow> ecost) \<Rightarrow> nat \<Rightarrow> nat \<Rightarrow> ecost list \<Rightarrow> ecost list" where
  "transform_row f b n cs = take b cs @ map f (take n (drop b cs)) @ drop (b + n) cs"

definition transform_row2 ::
    "(ecost \<Rightarrow> real \<Rightarrow> ecost) \<Rightarrow> real list \<Rightarrow> nat \<Rightarrow> nat \<Rightarrow> ecost list \<Rightarrow> ecost list" where
  "transform_row2 f ys b n cs =
     take b cs @ map2 f (take n (drop b cs)) ys @ drop (b + n) cs"

section \<open>\<open>compute\<close>: the initial reduction\<close>

text \<open>Lines 70--76: one pass of the loop over the rows, on the cost vector and \<open>colMin\<close>.\<close>

definition reduceRow :: "nat \<Rightarrow> nat \<Rightarrow> ecost list \<times> ecost list \<Rightarrow> ecost list \<times> ecost list" where
  "reduceRow n row = (\<lambda>(cs, colMin).
     let b = row * n;
         h = min_element (take n (drop b cs));
         cs' = (case h of Inf \<Rightarrow> cs | Fin x \<Rightarrow> transform_row (\<lambda>a. minus_T a x) b n cs);
         colMin' = map2 std_min (take n (drop b cs')) colMin
     in (cs', colMin'))"

text \<open>Line 79: an infinite column minimum becomes zero.\<close>

definition finiteColMin :: "ecost list \<Rightarrow> real list" where
  "finiteColMin colMin = map (\<lambda>v. case v of Inf \<Rightarrow> 0 | Fin x \<Rightarrow> x) colMin"

text \<open>Lines 70--81.\<close>

definition reduceCosts :: "hungarian \<Rightarrow> hungarian" where
  "reduceCosts s =
     (let n = numCol s;
          (cs, colMin) = fold (reduceRow n) [0..<numRow s] (cost s, replicate n Inf);
          colMin0 = finiteColMin colMin
      in s\<lparr>cost := fold (\<lambda>row. transform_row2 minus_T colMin0 (row * n) n) [0..<numRow s] cs\<rparr>)"

text \<open>Lines 86--93: the body of the double loop that records and stars zeros.\<close>

definition starCell :: "nat \<Rightarrow> nat \<Rightarrow> hungarian \<Rightarrow> hungarian" where
  "starCell row col s =
     (if cell s row col = Fin 0 then
        let s1 = s\<lparr>zeros := (zeros s)[row := zeros s ! row @ [col]]\<rparr> in
        if \<not> rowCovered s1 ! row \<and> \<not> colCovered s1 ! col then
          s1\<lparr>rowCovered := (rowCovered s1)[row := True],
             colCovered := (colCovered s1)[col := True],
             starredZeros := (starredZeros s1)[row := Some col]\<rparr>
        else s1
      else s)"

definition starZeros :: "hungarian \<Rightarrow> hungarian" where
  "starZeros s = fold (\<lambda>row. fold (starCell row) [0..<numCol s]) [0..<numRow s] s"

text \<open>Lines 98--103.\<close>

definition coverStarred :: "hungarian \<Rightarrow> hungarian" where
  "coverStarred s =
     (let s1 = s\<lparr>rowCovered := replicate (length (rowCovered s)) False,
                 colCovered := replicate (length (colCovered s)) False\<rparr>
      in s1\<lparr>colCovered := fold (\<lambda>c cc. case c of None \<Rightarrow> cc | Some c' \<Rightarrow> cc[c' := True])
                               (starredZeros s1) (colCovered s1)\<rparr>)"

section \<open>The private member functions\<close>

text \<open>
  \<open>rebalanceWorkers\<close>. \<open>uncoveredRows / workers.size()\<close> is a division of two
  \<open>size_t\<close>, so \<open>std::ceil\<close> receives an integer and changes nothing. The loop state is
  \<open>(ind, rowCount, workerRows)\<close>.
\<close>

definition rebalanceStep ::
    "bool list \<Rightarrow> nat \<Rightarrow> nat \<Rightarrow> nat \<times> nat \<times> nat list \<Rightarrow> nat \<times> nat \<times> nat list" where
  "rebalanceStep rc rowsPerWorker row = (\<lambda>(ind, rowCount, wr).
     if \<not> rc ! row then
       (if rowsPerWorker = rowCount then (ind + 1, 0, wr[ind := row])
        else (ind, rowCount + 1, wr))
     else (ind, rowCount, wr))"

definition rebalanceWorkers :: "hungarian \<Rightarrow> hungarian" where
  "rebalanceWorkers s =
     (let uncoveredRows = length (filter (\<lambda>b. b = False) (rowCovered s));
          rowsPerWorker = uncoveredRows div workers s;
          (ind, rowCount, wr) =
             fold (rebalanceStep (rowCovered s) rowsPerWorker) [0..<numRow s] (1, 0, workerRows s)
      in s\<lparr>workerRows := fold (\<lambda>i w. w[i := numRow s]) [ind..<length wr] wr\<rparr>)"

definition fillColInds :: "hungarian \<Rightarrow> hungarian" where
  "fillColInds s = s\<lparr>colInds := filter (\<lambda>col. \<not> colCovered s ! col) [0..<numCol s]\<rparr>"

fun findUncoveredZeroFrom :: "hungarian \<Rightarrow> nat list \<Rightarrow> (nat \<times> nat) option" where
  "findUncoveredZeroFrom s [] = None"
| "findUncoveredZeroFrom s (row # rows) =
     (if \<not> rowCovered s ! row then
        (case find (\<lambda>c. \<not> colCovered s ! c) (zeros s ! row) of
           Some c \<Rightarrow> Some (row, c)
         | None \<Rightarrow> findUncoveredZeroFrom s rows)
      else findUncoveredZeroFrom s rows)"

definition findUncoveredZero :: "hungarian \<Rightarrow> (nat \<times> nat) option" where
  "findUncoveredZero s = findUncoveredZeroFrom s [0..<numRow s]"

text \<open>
  The two parallel operations. Each worker thread \<open>i\<close> runs over the rows
  \<open>[workerRows[i], workerRows[i+1])\<close> and writes only those rows and its own slot of
  \<open>workerCosts\<close>; all threads are joined before the caller goes on. The model runs the
  workers one after the other, in the order of their indices.
\<close>

definition minCostRow :: "hungarian \<Rightarrow> nat \<Rightarrow> ecost \<Rightarrow> ecost" where
  "minCostRow s row m =
     (if \<not> rowCovered s ! row then
        fold (\<lambda>col m. if ec_less (cell s row col) m then cell s row col else m) (colInds s) m
      else m)"

definition findMinUncoveredCostWorker :: "nat \<Rightarrow> hungarian \<Rightarrow> hungarian" where
  "findMinUncoveredCostWorker i s =
     s\<lparr>workerCosts := (workerCosts s)[i :=
          fold (minCostRow s) [workerRows s ! i ..< workerRows s ! (i + 1)] (workerCosts s ! i)]\<rparr>"

definition findMinUncoveredCost :: "hungarian \<Rightarrow> ecost \<times> hungarian" where
  "findMinUncoveredCost s =
     (let s1 = s\<lparr>workerCosts := replicate (length (workerCosts s)) Inf\<rparr>;
          s2 = fold findMinUncoveredCostWorker [0..<workers s1] s1
      in (min_element (workerCosts s2), s2))"

definition updateCell :: "real \<Rightarrow> nat \<Rightarrow> nat \<Rightarrow> hungarian \<Rightarrow> hungarian" where
  "updateCell h row col s =
     (let v = minus_T (cell s row col) h;
          s1 = s\<lparr>cost := (cost s)[row * numCol s + col := v]\<rparr>
      in if v = Fin 0 then s1\<lparr>zeros := (zeros s1)[row := zeros s1 ! row @ [col]]\<rparr> else s1)"

definition updateCostsRow :: "real \<Rightarrow> nat \<Rightarrow> hungarian \<Rightarrow> hungarian" where
  "updateCostsRow h row s =
     (let s1 = (if rowCovered s ! row then
                  s\<lparr>cost := transform_row (\<lambda>a. plus_T a h) (row * numCol s) (numCol s) (cost s),
                    zeros := (zeros s)[row := []]\<rparr>
                else s)
      in fold (updateCell h row) (colInds s1) s1)"

definition updateCostsWorker :: "real \<Rightarrow> nat \<Rightarrow> hungarian \<Rightarrow> hungarian" where
  "updateCostsWorker h i s =
     fold (updateCostsRow h) [workerRows s ! i ..< workerRows s ! (i + 1)] s"

definition updateCosts :: "real \<Rightarrow> hungarian \<Rightarrow> hungarian" where
  "updateCosts h s = fold (updateCostsWorker h) [0..<workers s] s"

definition findStarredZeroInCol :: "hungarian \<Rightarrow> nat \<Rightarrow> nat option" where
  "findStarredZeroInCol s col = find (\<lambda>row. starredZeros s ! row = Some col) [0..<numRow s]"

section \<open>\<open>iterate\<close>\<close>

text \<open>
  Lines 212--216, the loop that follows the alternating chain. Nothing in the loop itself
  bounds it, so it is a partial function: \<open>None\<close> stands for a loop that never ends.
\<close>

partial_function (option) followChain :: "hungarian \<Rightarrow> nat \<Rightarrow> hungarian option" where
  "followChain s c =
     (case findStarredZeroInCol s c of
        None \<Rightarrow> Some s
      | Some r \<Rightarrow>
          followChain (s\<lparr>rowSequence := rowSequence s @ [r],
                        colSequence := colSequence s @ [primedZeros s ! r]\<rparr>)
                      (primedZeros s ! r))"

declare followChain.simps [code]

text \<open>Lines 219--220.\<close>

definition starSequence :: "hungarian \<Rightarrow> hungarian" where
  "starSequence s =
     s\<lparr>starredZeros :=
         fold (\<lambda>i st. st[rowSequence s ! i := Some (colSequence s ! i)])
              [0..<length (colSequence s)] (starredZeros s)\<rparr>"

text \<open>Lines 223--230.\<close>

definition recover :: "hungarian \<Rightarrow> hungarian" where
  "recover s =
     (let s1 = s\<lparr>rowCovered := replicate (length (rowCovered s)) False,
                 colCovered := replicate (length (colCovered s)) False\<rparr>
      in s1\<lparr>colCovered :=
              fold (\<lambda>r cc. case starredZeros s1 ! r of None \<Rightarrow> cc | Some c \<Rightarrow> cc[c := True])
                   [0..<numRow s1] (colCovered s1)\<rparr>)"

text \<open>Lines 206--231: the branch taken when the row of the primed zero has no star.\<close>

definition augment :: "nat \<Rightarrow> nat \<Rightarrow> hungarian \<Rightarrow> hungarian option" where
  "augment r c s =
     map_option (\<lambda>s2. recover (starSequence s2))
       (followChain (s\<lparr>rowSequence := [r], colSequence := [c]\<rparr>) c)"

text \<open>Lines 240--249: no uncovered zero is left.\<close>

definition noZero :: "hungarian \<Rightarrow> hungarian" where
  "noZero s =
     (let (h, s1) = findMinUncoveredCost (rebalanceWorkers (fillColInds s)) in
      case h of
        Inf \<Rightarrow> s1\<lparr>colCovered := replicate (length (colCovered s1)) True\<rparr>
      | Fin x \<Rightarrow> updateCosts x s1)"

text \<open>
  Lines 202--238: the \<open>while\<close> loop of \<open>iterate\<close> up to the turn that leaves it.
  The loop is left when no uncovered zero is found (second component \<open>None\<close>) or when
  the row of the zero just primed holds no star (second component the primed zero); a zero
  in a starred row covers that row, uncovers the star's column and goes round again.
\<close>

partial_function (option) primeLoop ::
    "hungarian \<Rightarrow> (hungarian \<times> (nat \<times> nat) option) option" where
  "primeLoop s =
     (case findUncoveredZero s of
        None \<Rightarrow> Some (s, None)
      | Some rc \<Rightarrow>
          (let r = fst rc; c = snd rc;
               s1 = s\<lparr>primedZeros := (primedZeros s)[r := c]\<rparr>
           in case starredZeros s1 ! r of
                None \<Rightarrow> Some (s1, Some (r, c))
              | Some c0 \<Rightarrow>
                  primeLoop (s1\<lparr>rowCovered := (rowCovered s1)[r := True],
                                colCovered := (colCovered s1)[c0 := False]\<rparr>)))"

declare primeLoop.simps [code]

text \<open>\<open>iterate\<close>: the loop, then the augmentation or the cost update.\<close>

definition iterate :: "hungarian \<Rightarrow> hungarian option" where
  "iterate s =
     (case primeLoop s of
        None \<Rightarrow> None
      | Some (s1, None) \<Rightarrow> Some (noZero s1)
      | Some (s1, Some (r, c)) \<Rightarrow> augment r c s1)"

section \<open>\<open>compute\<close>\<close>

text \<open>Lines 106--107.\<close>

partial_function (option) assignLoop :: "hungarian \<Rightarrow> hungarian option" where
  "assignLoop s =
     (if list_all (\<lambda>b. b) (colCovered s) then Some s
      else (case iterate s of None \<Rightarrow> None | Some s' \<Rightarrow> assignLoop s'))"

declare assignLoop.simps [code]

text \<open>Lines 70--103: the state on entry to the loop of line 106.\<close>

definition initialise :: "hungarian \<Rightarrow> hungarian" where
  "initialise s = coverStarred (starZeros (reduceCosts s))"

definition compute :: "hungarian \<Rightarrow> nat option list option" where
  "compute s = map_option starredZeros (assignLoop (initialise s))"

section \<open>Predicates used in the proofs\<close>

definition uncoveredUpto :: "bool list \<Rightarrow> nat \<Rightarrow> nat" where
  "uncoveredUpto rc n = length (filter (\<lambda>r. \<not> rc ! r) [0..<n])"

text \<open>The invariant of the loop of \<open>rebalanceWorkers\<close> after the rows below \<open>n\<close>.\<close>

definition rebalanceInv :: "bool list \<Rightarrow> nat \<Rightarrow> nat \<Rightarrow> nat \<Rightarrow> nat \<times> nat \<times> nat list \<Rightarrow> bool" where
  "rebalanceInv rc k w n = (\<lambda>(ind, rowCount, wr).
     1 \<le> ind \<and> rowCount \<le> k \<and> uncoveredUpto rc n = (ind - 1) * (k + 1) + rowCount \<and>
     length wr = w + 1 \<and> wr ! 0 = 0 \<and>
     (\<forall>i. i < ind \<longrightarrow> wr ! i \<le> n) \<and>
     (\<forall>i j. i \<le> j \<and> j < ind \<longrightarrow> wr ! i \<le> wr ! j))"

text \<open>What \<open>rebalanceWorkers\<close> guarantees about \<open>workerRows\<close>.\<close>

definition rowPartition :: "nat \<Rightarrow> nat \<Rightarrow> nat list \<Rightarrow> bool" where
  "rowPartition w n wr \<longleftrightarrow>
     length wr = w + 1 \<and> wr ! 0 = 0 \<and> wr ! w = n \<and> (\<forall>i<w. wr ! i \<le> wr ! (i + 1))"

text \<open>The sizes the constructor fixes; no member function changes them.\<close>

definition wf :: "hungarian \<Rightarrow> bool" where
  "wf s \<longleftrightarrow>
     numCol s = numRow s \<and>
     length (colCovered s) = numRow s \<and> length (rowCovered s) = numRow s \<and>
     length (cost s) = numRow s * numRow s \<and> length (zeros s) = numRow s \<and>
     length (primedZeros s) = numRow s \<and> length (starredZeros s) = numRow s \<and>
     0 < workers s \<and> length (workerRows s) = workers s + 1 \<and>
     length (workerCosts s) = workers s \<and> workerRows s ! 0 = 0"

text \<open>The state without the cost vector and the zero lists.\<close>

definition costFrame :: "hungarian \<Rightarrow> hungarian" where
  "costFrame s = s\<lparr>cost := [], zeros := []\<rparr>"

text \<open>
  The value of a cell after \<open>updateCosts h\<close>: \<open>h\<close> is added in a covered row and
  subtracted in a column of \<open>colInds\<close>.
\<close>

definition updatedCell :: "hungarian \<Rightarrow> real \<Rightarrow> nat \<Rightarrow> nat \<Rightarrow> ecost" where
  "updatedCell s h r c =
     (let base = (if rowCovered s ! r then plus_T (cell s r c) h else cell s r c)
      in if c \<in> set (colInds s) then minus_T base h else base)"

definition updatedZeros :: "hungarian \<Rightarrow> real \<Rightarrow> nat \<Rightarrow> nat list" where
  "updatedZeros s h r =
     (if rowCovered s ! r then [] else zeros s ! r) @
     filter (\<lambda>c. updatedCell s h r c = Fin 0) (colInds s)"

text \<open>
  \<open>h\<close> is the least cost among the cells whose row and column are both uncovered, and
  \<open>Inf\<close> when no such cell is finite.
\<close>

definition isMinUncovered :: "hungarian \<Rightarrow> ecost \<Rightarrow> bool" where
  "isMinUncovered s h \<longleftrightarrow>
     (\<forall>r<numRow s. \<forall>c<numCol s. \<not> rowCovered s ! r \<and> \<not> colCovered s ! c
         \<longrightarrow> \<not> ec_less (cell s r c) h) \<and>
     (h = Inf \<or> (\<exists>r<numRow s. \<exists>c<numCol s. \<not> rowCovered s ! r \<and> \<not> colCovered s ! c
         \<and> cell s r c = h))"

text \<open>The state without the workers' scratch results.\<close>

definition minFrame :: "hungarian \<Rightarrow> hungarian" where
  "minFrame s = s\<lparr>workerCosts := []\<rparr>"

text \<open>The properties of the solver state that the proofs follow through \<open>compute\<close>.\<close>

definition zerosExact :: "hungarian \<Rightarrow> bool" where
  "zerosExact s \<longleftrightarrow>
     (\<forall>r<numRow s. set (zeros s ! r) = {c. c < numCol s \<and> cell s r c = Fin 0})"

definition starsOneToOne :: "hungarian \<Rightarrow> bool" where
  "starsOneToOne s \<longleftrightarrow>
     (\<forall>r<numRow s. \<forall>r'<numRow s. \<forall>c.
        starredZeros s ! r = Some c \<and> starredZeros s ! r' = Some c \<longrightarrow> r = r')"

definition starsOnZeros :: "hungarian \<Rightarrow> bool" where
  "starsOnZeros s \<longleftrightarrow>
     (\<forall>r<numRow s. \<forall>c. starredZeros s ! r = Some c \<longrightarrow> c < numCol s \<and> cell s r c = Fin 0)"

definition nonNegative :: "hungarian \<Rightarrow> bool" where
  "nonNegative s \<longleftrightarrow> (\<forall>r<numRow s. \<forall>c<numCol s. \<forall>x. cell s r c = Fin x \<longrightarrow> 0 \<le> x)"

text \<open>
  The cost matrix is the original one, \<open>cs0\<close>, less a number for each row and a number for
  each column.
\<close>

definition reducedFrom :: "ecost list \<Rightarrow> hungarian \<Rightarrow> bool" where
  "reducedFrom cs0 s \<longleftrightarrow>
     (\<exists>u v. \<forall>r<numRow s. \<forall>c<numCol s.
        cell s r c = minus_T (cs0 ! (r * numCol s + c)) (u r + v c))"

definition coreInv :: "ecost list \<Rightarrow> hungarian \<Rightarrow> bool" where
  "coreInv cs0 s \<longleftrightarrow>
     wf s \<and> zerosExact s \<and> starsOneToOne s \<and> starsOnZeros s \<and> nonNegative s \<and>
     reducedFrom cs0 s"

text \<open>
  Between two augmentations: a covered row holds a star in an uncovered column and a primed
  zero in an uncovered column; the star of an uncovered row lies in a covered column; a
  covered column holds a star; and some row holds no star.
\<close>

definition coverInv :: "hungarian \<Rightarrow> bool" where
  "coverInv s \<longleftrightarrow>
     (\<forall>r<numRow s. rowCovered s ! r \<longrightarrow>
        (\<exists>c. starredZeros s ! r = Some c \<and> \<not> colCovered s ! c) \<and>
        primedZeros s ! r < numCol s \<and> \<not> colCovered s ! (primedZeros s ! r) \<and>
        cell s r (primedZeros s ! r) = Fin 0) \<and>
     (\<forall>r<numRow s. \<forall>c. starredZeros s ! r = Some c \<and> \<not> rowCovered s ! r \<longrightarrow> colCovered s ! c) \<and>
     (\<forall>c<numCol s. colCovered s ! c \<longrightarrow> (\<exists>r<numRow s. starredZeros s ! r = Some c)) \<and>
     (\<exists>r<numRow s. starredZeros s ! r = None)"

text \<open>
  Following primed zero, star, primed zero, ... from a covered row never comes back: the
  rows can be ranked so that each step goes down.
\<close>

definition chainsEnd :: "hungarian \<Rightarrow> bool" where
  "chainsEnd s \<longleftrightarrow>
     (\<exists>rank :: nat \<Rightarrow> nat. \<forall>r<numRow s. \<forall>r'<numRow s.
        rowCovered s ! r \<and> starredZeros s ! r' = Some (primedZeros s ! r) \<longrightarrow> rank r' < rank r)"

definition loopInv :: "hungarian \<Rightarrow> bool" where
  "loopInv s \<longleftrightarrow> coverInv s \<and> chainsEnd s"

definition uncoveredRows :: "hungarian \<Rightarrow> nat" where
  "uncoveredRows s = length (filter (\<lambda>b. \<not> b) (rowCovered s))"

text \<open>The state without the three vectors the loop of \<open>iterate\<close> writes.\<close>

definition primeFrame :: "hungarian \<Rightarrow> hungarian" where
  "primeFrame s = s\<lparr>primedZeros := [], rowCovered := [], colCovered := []\<rparr>"

text \<open>What the loop of \<open>iterate\<close> hands over when it is left from \<open>s\<close>.\<close>

definition primeResult ::
    "ecost list \<Rightarrow> hungarian \<Rightarrow> hungarian \<times> (nat \<times> nat) option \<Rightarrow> bool" where
  "primeResult cs0 s res \<longleftrightarrow>
     (case res of (s1, x) \<Rightarrow>
        coreInv cs0 s1 \<and> loopInv s1 \<and> primeFrame s1 = primeFrame s \<and>
        uncoveredRows s1 \<le> uncoveredRows s \<and>
        (case x of
           None \<Rightarrow> findUncoveredZero s1 = None \<and> (uncoveredRows s1 = uncoveredRows s \<longrightarrow> s1 = s)
         | Some (r, c) \<Rightarrow>
             r < numRow s1 \<and> c < numCol s1 \<and> \<not> rowCovered s1 ! r \<and> \<not> colCovered s1 ! c \<and>
             cell s1 r c = Fin 0 \<and> starredZeros s1 ! r = None \<and> primedZeros s1 ! r = c))"

definition allCovered :: "hungarian \<Rightarrow> bool" where
  "allCovered s \<longleftrightarrow> list_all (\<lambda>b. b) (colCovered s)"

text \<open>
  No star can be added: a cell whose row holds no star and whose column holds no star is
  infinite.
\<close>

definition exhausted :: "hungarian \<Rightarrow> bool" where
  "exhausted s \<longleftrightarrow>
     (\<forall>r<numRow s. \<forall>c<numCol s.
        starredZeros s ! r = None \<and> (\<forall>r'<numRow s. starredZeros s ! r' \<noteq> Some c)
        \<longrightarrow> cell s r c = Inf)"

text \<open>The invariant of the loop of \<open>compute\<close>.\<close>

definition outerInv :: "ecost list \<Rightarrow> hungarian \<Rightarrow> bool" where
  "outerInv cs0 s \<longleftrightarrow> coreInv cs0 s \<and> (if allCovered s then exhausted s else loopInv s)"

text \<open>The state without the scratch vectors of the cost update.\<close>

definition scratchFrame :: "hungarian \<Rightarrow> hungarian" where
  "scratchFrame s = s\<lparr>colInds := [], workerRows := [], workerCosts := []\<rparr>"

text \<open>
  The alternating chain that starts in column \<open>c\<close>: the row starred in \<open>c\<close>, the column
  of that row's primed zero, the row starred there, and so on until a column without a
  star.
\<close>

inductive chain :: "hungarian \<Rightarrow> nat \<Rightarrow> nat list \<Rightarrow> nat list \<Rightarrow> bool" for s where
  chain_end: "\<forall>r<numRow s. starredZeros s ! r \<noteq> Some c \<Longrightarrow> chain s c [] []"
| chain_step: "r < numRow s \<Longrightarrow> starredZeros s ! r = Some c \<Longrightarrow>
     chain s (primedZeros s ! r) rs cs \<Longrightarrow> chain s c (r # rs) (primedZeros s ! r # cs)"

definition starUpd :: "nat \<times> nat \<Rightarrow> nat option list \<Rightarrow> nat option list" where
  "starUpd = (\<lambda>(r, c) st. st[r := Some c])"

text \<open>The state without the two sequences of the augmentation.\<close>

definition seqFrame :: "hungarian \<Rightarrow> hungarian" where
  "seqFrame s = s\<lparr>rowSequence := [], colSequence := []\<rparr>"

definition starCount :: "hungarian \<Rightarrow> nat" where
  "starCount s = card {r. r < numRow s \<and> starredZeros s ! r \<noteq> None}"

text \<open>
  The stars \<open>st'\<close> obtained from those of \<open>s\<close> by starring the primed zeros of a chain
  that starts in column \<open>c\<close> and runs through the rows \<open>rs\<close>: still one-to-one and on zeros,
  with the same starred rows, and with column \<open>c\<close> free.
\<close>

definition chainApplied ::
    "hungarian \<Rightarrow> (nat \<Rightarrow> nat) \<Rightarrow> nat \<Rightarrow> nat list \<Rightarrow> nat option list \<Rightarrow> bool" where
  "chainApplied s rank c rs st' \<longleftrightarrow>
     length st' = numRow s \<and>
     (\<forall>x<numRow s. \<forall>y<numRow s. \<forall>k. st' ! x = Some k \<and> st' ! y = Some k \<longrightarrow> x = y) \<and>
     (\<forall>x<numRow s. st' ! x \<noteq> Some c) \<and>
     (\<forall>x<numRow s. x \<notin> set rs \<longrightarrow> st' ! x = starredZeros s ! x) \<and>
     (\<forall>x<numRow s. (st' ! x = None) = (starredZeros s ! x = None)) \<and>
     (\<forall>x<numRow s. \<forall>k. st' ! x = Some k \<longrightarrow> k < numCol s \<and> cell s x k = Fin 0) \<and>
     (\<forall>x\<in>set rs. x < numRow s \<and> starredZeros s ! x \<noteq> None \<and>
        (\<exists>r0<numRow s. starredZeros s ! r0 = Some c \<and> rank x \<le> rank r0))"

text \<open>
  \<open>iterate\<close> called in \<open>s\<close> takes the branch that applies an alternating path: its loop is
  left with a primed zero in a row without a star.
\<close>

definition augmenting :: "hungarian \<Rightarrow> bool" where
  "augmenting s \<longleftrightarrow> (case primeLoop s of Some (s1, Some rc) \<Rightarrow> True | _ \<Rightarrow> False)"

text \<open>
  The states of the loop of \<open>compute\<close> (line 106), started on the solver \<open>s0\<close>: the
  state on entry, and the state after each call of \<open>iterate\<close>. The number counts the calls
  that were augmentations.
\<close>

inductive computeRun :: "hungarian \<Rightarrow> nat \<Rightarrow> hungarian \<Rightarrow> bool" for s0 where
  run_entry: "computeRun s0 0 (initialise s0)"
| run_iterate: "computeRun s0 k s \<Longrightarrow> \<not> list_all (\<lambda>b. b) (colCovered s) \<Longrightarrow>
     iterate s = Some s' \<Longrightarrow> computeRun s0 (if augmenting s then k + 1 else k) s'"

text \<open>The three numbers that decrease, in this order, from one call of \<open>iterate\<close> to the next.\<close>

definition missingStars :: "hungarian \<Rightarrow> nat" where
  "missingStars s = numRow s - starCount s"

definition zeroPending :: "hungarian \<Rightarrow> nat" where
  "zeroPending s = (if findUncoveredZero s = None then 1 else 0)"

text \<open>The number subtracted from row \<open>r\<close> of the cost vector \<open>cs\<close> by the first pass.\<close>

definition rowMin :: "nat \<Rightarrow> ecost list \<Rightarrow> nat \<Rightarrow> real" where
  "rowMin n cs r = (case min_element (take n (drop (r * n) cs)) of Inf \<Rightarrow> 0 | Fin x \<Rightarrow> x)"

text \<open>The invariant of the loop of lines 71--76 after the rows below \<open>k\<close>.\<close>

definition reduceInv :: "nat \<Rightarrow> ecost list \<Rightarrow> nat \<Rightarrow> ecost list \<times> ecost list \<Rightarrow> bool" where
  "reduceInv n cs0 k = (\<lambda>(cs, colMin).
     length cs = n * n \<and> length colMin = n \<and>
     (\<forall>r<n. \<forall>c<n. cs ! (r * n + c) =
        (if r < k then minus_T (cs0 ! (r * n + c)) (rowMin n cs0 r) else cs0 ! (r * n + c))) \<and>
     (\<forall>r<k. \<forall>c<n. \<forall>x. cs ! (r * n + c) = Fin x \<longrightarrow> 0 \<le> x) \<and>
     (\<forall>r<k. \<forall>c<n. \<not> ec_less (cs ! (r * n + c)) (colMin ! c)))"

text \<open>
  The invariant of the double loop of lines 84--95, before the cell \<open>(i, j)\<close> is looked
  at; \<open>s1\<close> is the state on entry. The cover flags serve as the marks "this row holds a
  star" and "this column holds a star".
\<close>

definition starInv :: "hungarian \<Rightarrow> nat \<Rightarrow> nat \<Rightarrow> hungarian \<Rightarrow> bool" where
  "starInv s1 i j s \<longleftrightarrow>
     wf s \<and> numRow s = numRow s1 \<and> numCol s = numCol s1 \<and> cost s = cost s1 \<and>
     (\<forall>r<numRow s1. set (zeros s ! r) =
        {c. c < numRow s1 \<and> cell s1 r c = Fin 0 \<and> (r < i \<or> (r = i \<and> c < j))}) \<and>
     starsOneToOne s \<and> starsOnZeros s \<and>
     (\<forall>r<numRow s1. rowCovered s ! r = (starredZeros s ! r \<noteq> None)) \<and>
     (\<forall>c<numRow s1. colCovered s ! c = (\<exists>r<numRow s1. starredZeros s ! r = Some c))"

text \<open>A solver on which \<open>compute\<close> has not run: as the constructor and \<open>setCost\<close> leave it.\<close>

definition fresh :: "hungarian \<Rightarrow> bool" where
  "fresh s \<longleftrightarrow>
     wf s \<and> zeros s = replicate (numRow s) [] \<and>
     rowCovered s = replicate (numRow s) False \<and> colCovered s = replicate (numRow s) False \<and>
     starredZeros s = replicate (numRow s) None"

text \<open>
  The solver as the driver builds it: constructed for \<open>rows\<close> by \<open>columns\<close>, then
  \<open>setCost\<close> called once for every cell of the matrix with the finite cost \<open>m row col\<close>.
\<close>

definition solver :: "nat \<Rightarrow> nat \<Rightarrow> nat \<Rightarrow> (nat \<Rightarrow> nat \<Rightarrow> real) \<Rightarrow> hungarian" where
  "solver hc rows columns m =
     fold (\<lambda>(r, c). setCost r c (Fin (m r c))) (List.product [0..<rows] [0..<columns])
          (Hungarian hc rows columns)"

text \<open>The matrix \<open>[[1, 1], [1, 2]]\<close> on one worker, used as a concrete input.\<close>

definition exampleSolver :: hungarian where
  "exampleSolver = solver 1 2 2 (\<lambda>r c. [[1, 1], [1, 2]] ! r ! c)"

text \<open>
  A state in which \<open>compute\<close> calls \<open>updateCosts\<close>: the matrix
  \<open>[[1, 2, 3], [2, 4, 6], [3, 6, 9]]\<close> on one worker, in the second call of \<open>iterate\<close>,
  after the search for the minimum (which is 1).
\<close>

definition updateExample :: hungarian where
  "updateExample =
     snd (findMinUncoveredCost (rebalanceWorkers (fillColInds (fst (the (primeLoop (the (iterate
       (initialise (solver 1 3 3 (\<lambda>r c. [[1, 2, 3], [2, 4, 6], [3, 6, 9]] ! r ! c)))))))))))"

text \<open>
  \<open>compute\<close> on \<open>s0\<close> ends after exactly one call of \<open>iterate\<close>: the loop of line 106 is
  entered, and the state after the first call has every column covered.
\<close>

definition singlePass :: "hungarian \<Rightarrow> bool" where
  "singlePass s0 \<longleftrightarrow>
     \<not> list_all (\<lambda>b. b) (colCovered (initialise s0)) \<and>
     (\<exists>s'. iterate (initialise s0) = Some s' \<and> list_all (\<lambda>b. b) (colCovered s'))"

section \<open>The solver over a cost type that rounds\<close>

text \<open>
  The class is instantiated with a floating-point type (\<open>Hungarian<float>\<close> in
  \<open>example.cpp\<close>), whose subtraction and addition round their exact result to the nearest
  value of the type and overflow to infinity. This section repeats the functions of the
  solver that subtract or add costs with the rounding of \<open>T\<close> as a parameter
  \<open>rnd\<close>: the value of type \<open>T\<close> that an exact finite result becomes. Everything else
  (comparisons, the zero lists, stars, primes and covers) is shared with the sections
  above.
\<close>

fun minus_fl :: "(real \<Rightarrow> ecost) \<Rightarrow> ecost \<Rightarrow> real \<Rightarrow> ecost" where
  "minus_fl rnd (Fin a) h = rnd (a - h)"
| "minus_fl rnd Inf h = Inf"

fun plus_fl :: "(real \<Rightarrow> ecost) \<Rightarrow> ecost \<Rightarrow> real \<Rightarrow> ecost" where
  "plus_fl rnd (Fin a) h = rnd (a + h)"
| "plus_fl rnd Inf h = Inf"

definition reduceRow_fl ::
    "(real \<Rightarrow> ecost) \<Rightarrow> nat \<Rightarrow> nat \<Rightarrow> ecost list \<times> ecost list \<Rightarrow> ecost list \<times> ecost list" where
  "reduceRow_fl rnd n row = (\<lambda>(cs, colMin).
     let b = row * n;
         h = min_element (take n (drop b cs));
         cs' = (case h of Inf \<Rightarrow> cs | Fin x \<Rightarrow> transform_row (\<lambda>a. minus_fl rnd a x) b n cs);
         colMin' = map2 std_min (take n (drop b cs')) colMin
     in (cs', colMin'))"

definition reduceCosts_fl :: "(real \<Rightarrow> ecost) \<Rightarrow> hungarian \<Rightarrow> hungarian" where
  "reduceCosts_fl rnd s =
     (let n = numCol s;
          (cs, colMin) = fold (reduceRow_fl rnd n) [0..<numRow s] (cost s, replicate n Inf);
          colMin0 = finiteColMin colMin
      in s\<lparr>cost := fold (\<lambda>row. transform_row2 (minus_fl rnd) colMin0 (row * n) n)
                        [0..<numRow s] cs\<rparr>)"

definition updateCell_fl :: "(real \<Rightarrow> ecost) \<Rightarrow> real \<Rightarrow> nat \<Rightarrow> nat \<Rightarrow> hungarian \<Rightarrow> hungarian" where
  "updateCell_fl rnd h row col s =
     (let v = minus_fl rnd (cell s row col) h;
          s1 = s\<lparr>cost := (cost s)[row * numCol s + col := v]\<rparr>
      in if v = Fin 0 then s1\<lparr>zeros := (zeros s1)[row := zeros s1 ! row @ [col]]\<rparr> else s1)"

definition updateCostsRow_fl :: "(real \<Rightarrow> ecost) \<Rightarrow> real \<Rightarrow> nat \<Rightarrow> hungarian \<Rightarrow> hungarian" where
  "updateCostsRow_fl rnd h row s =
     (let s1 = (if rowCovered s ! row then
                  s\<lparr>cost := transform_row (\<lambda>a. plus_fl rnd a h) (row * numCol s) (numCol s) (cost s),
                    zeros := (zeros s)[row := []]\<rparr>
                else s)
      in fold (updateCell_fl rnd h row) (colInds s1) s1)"

definition updateCostsWorker_fl :: "(real \<Rightarrow> ecost) \<Rightarrow> real \<Rightarrow> nat \<Rightarrow> hungarian \<Rightarrow> hungarian" where
  "updateCostsWorker_fl rnd h i s =
     fold (updateCostsRow_fl rnd h) [workerRows s ! i ..< workerRows s ! (i + 1)] s"

definition updateCosts_fl :: "(real \<Rightarrow> ecost) \<Rightarrow> real \<Rightarrow> hungarian \<Rightarrow> hungarian" where
  "updateCosts_fl rnd h s = fold (updateCostsWorker_fl rnd h) [0..<workers s] s"

definition noZero_fl :: "(real \<Rightarrow> ecost) \<Rightarrow> hungarian \<Rightarrow> hungarian" where
  "noZero_fl rnd s =
     (let (h, s1) = findMinUncoveredCost (rebalanceWorkers (fillColInds s)) in
      case h of
        Inf \<Rightarrow> s1\<lparr>colCovered := replicate (length (colCovered s1)) True\<rparr>
      | Fin x \<Rightarrow> updateCosts_fl rnd x s1)"

definition iterate_fl :: "(real \<Rightarrow> ecost) \<Rightarrow> hungarian \<Rightarrow> hungarian option" where
  "iterate_fl rnd s =
     (case primeLoop s of
        None \<Rightarrow> None
      | Some (s1, None) \<Rightarrow> Some (noZero_fl rnd s1)
      | Some (s1, Some (r, c)) \<Rightarrow> augment r c s1)"

partial_function (option) assignLoop_fl :: "(real \<Rightarrow> ecost) \<Rightarrow> hungarian \<Rightarrow> hungarian option" where
  "assignLoop_fl rnd s =
     (if list_all (\<lambda>b. b) (colCovered s) then Some s
      else (case iterate_fl rnd s of None \<Rightarrow> None | Some s' \<Rightarrow> assignLoop_fl rnd s'))"

declare assignLoop_fl.simps [code]

definition initialise_fl :: "(real \<Rightarrow> ecost) \<Rightarrow> hungarian \<Rightarrow> hungarian" where
  "initialise_fl rnd s = coverStarred (starZeros (reduceCosts_fl rnd s))"

definition compute_fl :: "(real \<Rightarrow> ecost) \<Rightarrow> hungarian \<Rightarrow> nat option list option" where
  "compute_fl rnd s = map_option starredZeros (assignLoop_fl rnd (initialise_fl rnd s))"

text \<open>
  The IEEE 754 binary formats with \<open>p\<close> significant bits, greatest exponent \<open>emax\<close>
  and least exponent \<open>1 - emax\<close>, rounding to nearest, ties to even: \<open>float\<close> is
  \<open>binary32\<close> and \<open>double\<close> is \<open>binary64\<close>. \<open>bitLength n\<close> is the number of
  binary digits of \<open>n\<close>, and \<open>exponent x\<close> is the integer \<open>e\<close> with
  \<open>2^e \<le> |x| < 2^(e+1)\<close>. The exact result \<open>x\<close> is rounded to a multiple of the
  spacing \<open>q\<close> that the format has at \<open>x\<close>, and a rounded value that needs an exponent
  above \<open>emax\<close> is infinity. The negative infinity of the formats is not a value of
  \<open>ecost\<close>, so a negative result is never taken to an infinity here.
\<close>

function bitLength :: "int \<Rightarrow> int" where
  "bitLength n = (if n \<le> 0 then 0 else 1 + bitLength (n div 2))"
  by auto
termination by (relation "measure nat") auto

declare bitLength.simps [simp del]

definition exponent :: "real \<Rightarrow> int" where
  "exponent x =
     (if 1 \<le> \<bar>x\<bar> then bitLength \<lfloor>\<bar>x\<bar>\<rfloor> - 1
      else - bitLength (\<lceil>1 / \<bar>x\<bar>\<rceil> - 1))"

definition roundEven :: "real \<Rightarrow> int" where
  "roundEven x =
     (let f = \<lfloor>x\<rfloor>; d = x - of_int f
      in if d < 1 / 2 then f else if 1 / 2 < d then f + 1 else if even f then f else f + 1)"

definition ieee :: "nat \<Rightarrow> int \<Rightarrow> real \<Rightarrow> ecost" where
  "ieee p emax x =
     (let e = max (exponent x) (1 - emax);
          q = 2 powi (e - int p + 1);
          y = of_int (roundEven (x / q)) * q
      in if 0 < y \<and> emax < exponent y then Inf else Fin y)"

definition binary32 :: "real \<Rightarrow> ecost" where
  "binary32 = ieee 24 127"

definition binary64 :: "real \<Rightarrow> ecost" where
  "binary64 = ieee 53 1023"

text \<open>
  Rounding changes nothing in the run of \<open>compute\<close> on \<open>s0\<close>: the state on entry to
  the loop of line 106 is the one that exact arithmetic gives, and so is the state after
  every call of \<open>iterate\<close> made in the run. This is the case, in particular, when no
  subtraction and no addition of the run rounds or overflows.
\<close>

definition exactRun :: "(real \<Rightarrow> ecost) \<Rightarrow> hungarian \<Rightarrow> bool" where
  "exactRun rnd s0 \<longleftrightarrow>
     initialise_fl rnd s0 = initialise s0 \<and>
     (\<forall>k s. computeRun s0 k s \<and> \<not> list_all (\<lambda>b. b) (colCovered s)
        \<longrightarrow> iterate_fl rnd s = iterate s)"






text \<open>
  The state without the thread pool and its two vectors, and a state with these three
  replaced.
\<close>

definition workFrame :: "hungarian \<Rightarrow> hungarian" where
  "workFrame s = s\<lparr>workers := 0, workerRows := [], workerCosts := []\<rparr>"

definition setWorkers :: "nat \<Rightarrow> nat list \<Rightarrow> ecost list \<Rightarrow> hungarian \<Rightarrow> hungarian" where
  "setWorkers w wr wc s = s\<lparr>workers := w, workerRows := wr, workerCosts := wc\<rparr>"

section \<open>Proofs\<close>

subsection \<open>\<open>rebalanceWorkers\<close>\<close>

lemma uncoveredUpto_Suc:
  "uncoveredUpto rc (Suc n) = uncoveredUpto rc n + (if rc ! n then 0 else 1)"
  by (simp add: uncoveredUpto_def)

lemma uncoveredUpto_mono: "m \<le> n \<Longrightarrow> uncoveredUpto rc m \<le> uncoveredUpto rc n"
  by (induction n) (auto simp: uncoveredUpto_Suc le_Suc_eq)

lemma uncoveredUpto_length:
  "uncoveredUpto rc (length rc) = length (filter (\<lambda>b. b = False) rc)"
proof -
  have "filter (\<lambda>b. b = False) (map (\<lambda>r. rc ! r) [0..<length rc])
        = map (\<lambda>r. rc ! r) (filter (\<lambda>r. \<not> rc ! r) [0..<length rc])"
    by (simp add: filter_map comp_def)
  then have "length (filter (\<lambda>b. b = False) (map (\<lambda>r. rc ! r) [0..<length rc]))
        = uncoveredUpto rc (length rc)"
    by (simp add: uncoveredUpto_def)
  then show ?thesis by (simp add: map_nth)
qed

lemma div_bound: "0 < (w::nat) \<Longrightarrow> u < w * (u div w + 1)"
  by (simp add: dividend_less_times_div)

lemma rebalanceInv_ind_le:
  assumes "rebalanceInv rc k w n (ind, rowCount, wr)" and "uncoveredUpto rc n \<le> u"
    and "k = u div w" and "0 < w"
  shows "ind \<le> w"
proof -
  from assms(1) have e: "uncoveredUpto rc n = (ind - 1) * (k + 1) + rowCount"
    by (auto simp: rebalanceInv_def)
  have ub: "u < w * (k + 1)" using assms(3,4) div_bound by simp
  have "(ind - 1) * (k + 1) \<le> u" using e assms(2) by simp
  then have "(ind - 1) * (k + 1) < w * (k + 1)" using ub by simp
  then have "ind - 1 < w" unfolding mult_less_cancel2 by simp
  then show ?thesis by simp
qed

lemma rebalanceInv_ind_less:
  assumes "rebalanceInv rc k w n (ind, k, wr)" and "uncoveredUpto rc n + 1 \<le> u"
    and "k = u div w" and "0 < w"
  shows "ind < w"
proof -
  from assms(1) have e: "uncoveredUpto rc n = (ind - 1) * (k + 1) + k" and i1: "1 \<le> ind"
    by (auto simp: rebalanceInv_def)
  have ub: "u < w * (k + 1)" using assms(3,4) div_bound by simp
  have "ind * (k + 1) \<le> u" using e assms(2) i1 by (cases ind) auto
  then have "ind * (k + 1) < w * (k + 1)" using ub by simp
  then show ?thesis unfolding mult_less_cancel2 by simp
qed

lemma rebalanceInv_step:
  assumes inv: "rebalanceInv rc k w n st" and le: "uncoveredUpto rc (Suc n) \<le> u"
    and k: "k = u div w" and w: "0 < w"
  shows "rebalanceInv rc k w (Suc n) (rebalanceStep rc k n st)"
proof -
  obtain ind rowCount wr where st: "st = (ind, rowCount, wr)" by (cases st) auto
  note I = inv[unfolded st rebalanceInv_def, simplified]
  show ?thesis
  proof (cases "rc ! n")
    case True
    then show ?thesis using I
      by (auto simp: st rebalanceInv_def rebalanceStep_def uncoveredUpto_Suc le_SucI)
  next
    case unc: False
    show ?thesis
    proof (cases "k = rowCount")
      case True
      have "uncoveredUpto rc n + 1 \<le> u" using le unc by (simp add: uncoveredUpto_Suc)
      from rebalanceInv_ind_less[OF inv[unfolded st True[symmetric]] this k w]
      have indw: "ind \<le> w" by simp
      have len: "ind < length wr" using I indw by simp
      have cnt: "uncoveredUpto rc (Suc n) = ind * (k + 1)"
        using I True unc by (cases ind) (auto simp: uncoveredUpto_Suc)
      have a: "\<forall>i. i < ind + 1 \<longrightarrow> wr[ind := n] ! i \<le> Suc n"
        using I len by (auto simp: nth_list_update le_SucI)
      have b: "\<forall>i j. i \<le> j \<and> j < ind + 1 \<longrightarrow> wr[ind := n] ! i \<le> wr[ind := n] ! j"
        using I len by (auto simp: nth_list_update)
      have c: "wr[ind := n] ! 0 = 0" using I by (simp add: nth_list_update)
      show ?thesis using I True unc a b c cnt
        by (simp add: st rebalanceInv_def rebalanceStep_def)
    next
      case False
      then show ?thesis using I unc
        by (auto simp: st rebalanceInv_def rebalanceStep_def uncoveredUpto_Suc le_SucI)
    qed
  qed
qed

lemma rebalanceInv_fold:
  assumes "n \<le> length rc" and "u = length (filter (\<lambda>b. b = False) rc)"
    and "k = u div w" and "0 < w" and "length wr0 = w + 1" and "wr0 ! 0 = 0"
  shows "rebalanceInv rc k w n (fold (rebalanceStep rc k) [0..<n] (1, 0, wr0))"
  using assms(1)
proof (induction n)
  case 0
  then show ?case using assms by (simp add: rebalanceInv_def uncoveredUpto_def)
next
  case (Suc n)
  have "uncoveredUpto rc (Suc n) \<le> u"
    using uncoveredUpto_mono[OF Suc.prems, of rc] assms(2) by (simp add: uncoveredUpto_length)
  then show ?case using Suc rebalanceInv_step[OF _ _ assms(3,4)] by simp
qed

lemma fold_fill_length: "length (fold (\<lambda>i w. w[i := v]) is xs) = length xs"
  by (induction "is" arbitrary: xs) auto

lemma fold_fill_nth:
  "b \<le> length xs \<Longrightarrow> i < length xs \<Longrightarrow>
   fold (\<lambda>i w. w[i := v]) [a..<b] xs ! i = (if a \<le> i \<and> i < b then v else xs ! i)"
  by (induction b) (auto simp: nth_list_update fold_fill_length)

lemma rebalanceWorkers_rowPartition:
  assumes "length (workerRows s) = workers s + 1" and "0 < workers s"
    and "length (rowCovered s) = numRow s" and "workerRows s ! 0 = 0"
  shows "rowPartition (workers s) (numRow s) (workerRows (rebalanceWorkers s))"
proof -
  define u where "u = length (filter (\<lambda>b. b = False) (rowCovered s))"
  define k where "k = u div workers s"
  define st where "st = fold (rebalanceStep (rowCovered s) k) [0..<numRow s] (1, 0, workerRows s)"
  obtain ind rowCount wr where st: "st = (ind, rowCount, wr)" by (cases st) auto
  have "rebalanceInv (rowCovered s) k (workers s) (numRow s) st"
    unfolding st_def
    by (rule rebalanceInv_fold[OF _ u_def k_def assms(2) assms(1) assms(4)]) (simp add: assms(3))
  then have inv: "rebalanceInv (rowCovered s) k (workers s) (numRow s) (ind, rowCount, wr)"
    by (simp add: st)
  note I = inv[unfolded rebalanceInv_def, simplified]
  have "uncoveredUpto (rowCovered s) (numRow s) \<le> u"
    unfolding u_def assms(3)[symmetric] uncoveredUpto_length by simp
  from rebalanceInv_ind_le[OF inv this k_def assms(2)]
  have indw: "ind \<le> workers s" .
  have res: "workerRows (rebalanceWorkers s) = fold (\<lambda>i w. w[i := numRow s]) [ind..<length wr] wr"
    unfolding rebalanceWorkers_def Let_def u_def[symmetric] k_def[symmetric] st_def[symmetric]
    by (simp add: st)
  have nth: "\<And>i. i \<le> workers s \<Longrightarrow>
      workerRows (rebalanceWorkers s) ! i = (if ind \<le> i then numRow s else wr ! i)"
    using I fold_fill_nth[of "length wr" wr _ "numRow s" ind] by (simp add: res del: upt_Suc)
  have mono: "\<And>i. i < workers s \<Longrightarrow>
      workerRows (rebalanceWorkers s) ! i \<le> workerRows (rebalanceWorkers s) ! (i + 1)"
    using I by (auto simp: nth)
  have n0: "workerRows (rebalanceWorkers s) ! 0 = 0"
    using nth[of 0] I by simp
  have nw: "workerRows (rebalanceWorkers s) ! workers s = numRow s"
    using nth[of "workers s"] indw by simp
  have len: "length (workerRows (rebalanceWorkers s)) = workers s + 1"
    using I by (simp add: res fold_fill_length del: upt_Suc)
  show ?thesis
    unfolding rowPartition_def using n0 nw len mono by simp
qed

lemma rowPartition_mono:
  assumes "rowPartition w n wr" and "i \<le> j" and "j \<le> w"
  shows "wr ! i \<le> wr ! j"
  using assms(2,3)
proof (induction j)
  case 0
  then show ?case by simp
next
  case (Suc j)
  show ?case
  proof (cases "i = Suc j")
    case True
    then show ?thesis by simp
  next
    case False
    then have "wr ! i \<le> wr ! j" using Suc by simp
    moreover have "wr ! j \<le> wr ! (j + 1)" using assms(1) Suc.prems by (simp add: rowPartition_def)
    ultimately show ?thesis by simp
  qed
qed

lemma rowPartition_owner:
  assumes p: "rowPartition w n wr" and row: "row < n"
  shows "\<exists>!i. i < w \<and> wr ! i \<le> row \<and> row < wr ! (i + 1)"
proof -
  have ex: "\<exists>i<w. wr ! i \<le> row \<and> row < wr ! (i + 1)"
  proof (rule ccontr)
    assume no: "\<not> ?thesis"
    have "i \<le> w \<Longrightarrow> wr ! i \<le> row" for i
    proof (induction i)
      case 0
      then show ?case using p by (simp add: rowPartition_def)
    next
      case (Suc i)
      then show ?case using no by (auto simp: not_less)
    qed
    from this[of w] show False using p row by (simp add: rowPartition_def)
  qed
  have uniq: "i = j" if i: "i < w" "wr ! i \<le> row" "row < wr ! (i + 1)"
    and j: "j < w" "wr ! j \<le> row" "row < wr ! (j + 1)" for i j
  proof (rule ccontr)
    assume "i \<noteq> j"
    then consider "i + 1 \<le> j" | "j + 1 \<le> i" by linarith
    then show False
    proof cases
      case 1
      from rowPartition_mono[OF p 1] j(1) have "wr ! (i + 1) \<le> wr ! j" by simp
      then show ?thesis using i j by simp
    next
      case 2
      from rowPartition_mono[OF p 2] i(1) have "wr ! (j + 1) \<le> wr ! i" by simp
      then show ?thesis using i j by simp
    qed
  qed
  from ex uniq show ?thesis by blast
qed

text \<open>
  Claim C9. After \<open>rebalanceWorkers\<close> the vector \<open>workerRows\<close> starts at 0, never
  decreases and ends at \<open>numRow\<close>, so the ranges \<open>[workerRows[i], workerRows[i+1])\<close> are
  pairwise disjoint and cover the rows \<open>0..numRow-1\<close>: every row belongs to exactly one
  worker. The hypotheses are the facts the constructor establishes and no member function
  changes: \<open>workerRows\<close> has one entry more than there are workers, there is at least one
  worker, \<open>rowCovered\<close> has \<open>numRow\<close> entries and \<open>workerRows[0]\<close> is 0.
\<close>

theorem rebalanceWorkers_partition:
  assumes "length (workerRows s) = workers s + 1" and "0 < workers s"
    and "length (rowCovered s) = numRow s" and "workerRows s ! 0 = 0"
  shows "workerRows (rebalanceWorkers s) ! 0 = 0 \<and>
         workerRows (rebalanceWorkers s) ! workers s = numRow s \<and>
         (\<forall>i<workers s. workerRows (rebalanceWorkers s) ! i
                            \<le> workerRows (rebalanceWorkers s) ! (i + 1)) \<and>
         (\<forall>row<numRow s. \<exists>!i. i < workers s \<and>
              workerRows (rebalanceWorkers s) ! i \<le> row \<and>
              row < workerRows (rebalanceWorkers s) ! (i + 1))"
proof -
  have p: "rowPartition (workers s) (numRow s) (workerRows (rebalanceWorkers s))"
    using assms by (rule rebalanceWorkers_rowPartition)
  then show ?thesis using rowPartition_owner[OF p] by (simp add: rowPartition_def)
qed

theorem rebalanceWorkers_partition_witness:
  "length (workerRows (Hungarian 2 3 3)) = workers (Hungarian 2 3 3) + 1 \<and>
   0 < workers (Hungarian 2 3 3) \<and>
   length (rowCovered (Hungarian 2 3 3)) = numRow (Hungarian 2 3 3) \<and>
   workerRows (Hungarian 2 3 3) ! 0 = 0 \<and>
   workerRows (rebalanceWorkers (Hungarian 2 3 3)) ! 0 = 0 \<and>
   workerRows (rebalanceWorkers (Hungarian 2 3 3)) ! workers (Hungarian 2 3 3) = 3 \<and>
   workerRows (rebalanceWorkers (Hungarian 2 3 3)) ! 0
     \<le> workerRows (rebalanceWorkers (Hungarian 2 3 3)) ! 1 \<and>
   (\<exists>!i. i < workers (Hungarian 2 3 3) \<and>
        workerRows (rebalanceWorkers (Hungarian 2 3 3)) ! i \<le> 2 \<and>
        2 < workerRows (rebalanceWorkers (Hungarian 2 3 3)) ! (i + 1))"
proof -
  have h: "length (workerRows (Hungarian 2 3 3)) = workers (Hungarian 2 3 3) + 1"
    "0 < workers (Hungarian 2 3 3)"
    "length (rowCovered (Hungarian 2 3 3)) = numRow (Hungarian 2 3 3)"
    "workerRows (Hungarian 2 3 3) ! 0 = 0"
    by (simp_all add: Hungarian_def)
  have n: "numRow (Hungarian 2 3 3) = 3" "(0::nat) < workers (Hungarian 2 3 3)"
    by (simp_all add: Hungarian_def)
  from rebalanceWorkers_partition[OF h] n h show ?thesis by auto
qed

subsection \<open>The row-major cost vector\<close>

lemma idx_less: "r < n \<Longrightarrow> c < n \<Longrightarrow> r * n + c < n * (n::nat)"
proof -
  assume r: "r < n" and c: "c < n"
  have "r * n + c < r * n + n" using c by simp
  also have "\<dots> = Suc r * n" by simp
  also have "\<dots> \<le> n * n" using r by (metis Suc_leI mult_le_mono1)
  finally show ?thesis .
qed

lemma idx_row_less: "c < n \<Longrightarrow> (r * n + c < row * n) = (r < (row::nat))"
proof
  assume c: "c < n" and lt: "r * n + c < row * n"
  show "r < row"
  proof (rule ccontr)
    assume "\<not> r < row"
    then have "row \<le> r" by simp
    then have "row * n \<le> r * n" by (rule mult_le_mono1)
    then show False using lt by linarith
  qed
next
  assume c: "c < n" and r: "r < row"
  have "r * n + c < Suc r * n" using c by simp
  also have "\<dots> \<le> row * n" using r by (metis Suc_leI mult_le_mono1)
  finally show "r * n + c < row * n" .
qed

lemma idx_in_row: "c < n \<Longrightarrow> (row * n \<le> r * n + c \<and> r * n + c < row * n + n) = (r = (row::nat))"
  using idx_row_less[of c n r row] idx_row_less[of c n r "Suc row"]
  by (auto simp: linorder_not_less[symmetric] less_Suc_eq_le)

lemma idx_inj: "c < n \<Longrightarrow> c' < n \<Longrightarrow> (r * n + c = r' * n + c') = (r = r' \<and> c = (c'::nat))"
proof -
  assume c: "c < n" and c': "c' < n"
  show ?thesis
  proof
    assume e: "r * n + c = r' * n + c'"
    have "r' * n \<le> r * n + c \<and> r * n + c < r' * n + n" using e c' by simp
    then have "r = r'" using idx_in_row[OF c] by blast
    then show "r = r' \<and> c = c'" using e by simp
  qed simp
qed

lemma transform_row_length: "length (transform_row f b n cs) = length cs"
  by (simp add: transform_row_def)

lemma nth_append3:
  "length xs = b \<Longrightarrow> length ys = n \<Longrightarrow>
   (xs @ ys @ zs) ! i =
     (if i < b then xs ! i else if i < b + n then ys ! (i - b) else zs ! (i - b - n))"
  by (auto simp: nth_append)

lemma transform_row_nth:
  assumes "b + n \<le> length cs" and "i < length cs"
  shows "transform_row f b n cs ! i = (if b \<le> i \<and> i < b + n then f (cs ! i) else cs ! i)"
proof -
  have l1: "length (take b cs) = b" using assms by simp
  have l2: "length (map f (take n (drop b cs))) = n" using assms by simp
  have m: "i - b < n \<Longrightarrow> map f (take n (drop b cs)) ! (i - b) = f (cs ! (b + (i - b)))"
    using assms by simp
  have d: "b + n \<le> i \<Longrightarrow> drop (b + n) cs ! (i - b - n) = cs ! (b + n + (i - b - n))"
    using assms by simp
  show ?thesis
    unfolding transform_row_def nth_append3[OF l1 l2] using assms m d by auto
qed

lemma transform_row2_length:
  "length ys = n \<Longrightarrow> b + n \<le> length cs \<Longrightarrow> length (transform_row2 f ys b n cs) = length cs"
  by (simp add: transform_row2_def)

lemma transform_row2_nth:
  assumes "b + n \<le> length cs" and "i < length cs" and "length ys = n"
  shows "transform_row2 f ys b n cs ! i =
           (if b \<le> i \<and> i < b + n then f (cs ! i) (ys ! (i - b)) else cs ! i)"
proof -
  have l1: "length (take b cs) = b" using assms by simp
  have l2: "length (map2 f (take n (drop b cs)) ys) = n" using assms by simp
  have m: "i - b < n \<Longrightarrow>
      map2 f (take n (drop b cs)) ys ! (i - b) = f (cs ! (b + (i - b))) (ys ! (i - b))"
    using assms by simp
  have d: "b + n \<le> i \<Longrightarrow> drop (b + n) cs ! (i - b - n) = cs ! (b + n + (i - b - n))"
    using assms by simp
  show ?thesis
    unfolding transform_row2_def nth_append3[OF l1 l2] using assms m d by auto
qed

lemma transform_row_cell:
  assumes "length cs = n * n" and "row < n" and "r < n" and "c < n"
  shows "transform_row f (row * n) n cs ! (r * n + c) =
           (if r = row then f (cs ! (r * n + c)) else cs ! (r * n + c))"
proof -
  have "row * n + n \<le> length cs"
    using assms(1,2) by (metis Suc_leI mult_Suc mult_le_mono1 add.commute)
  moreover have "r * n + c < length cs" using assms idx_less by simp
  ultimately show ?thesis using idx_in_row[OF assms(4), of row r]
    by (simp add: transform_row_nth)
qed

lemma transform_row2_cell:
  assumes "length cs = n * n" and "row < n" and "r < n" and "c < n" and "length ys = n"
  shows "transform_row2 f ys (row * n) n cs ! (r * n + c) =
           (if r = row then f (cs ! (r * n + c)) (ys ! c) else cs ! (r * n + c))"
proof -
  have "row * n + n \<le> length cs"
    using assms(1,2) by (metis Suc_leI mult_Suc mult_le_mono1 add.commute)
  moreover have "r * n + c < length cs" using assms idx_less by simp
  ultimately show ?thesis using idx_in_row[OF assms(4), of row r] assms(5)
    by (auto simp add: transform_row2_nth)
qed

lemma row_slice_nth:
  assumes "length cs = n * n" and "row < n" and "c < n"
  shows "take n (drop (row * n) cs) ! c = cs ! (row * n + c)"
    and "length (take n (drop (row * n) cs)) = n"
proof -
  have le: "row * n + n \<le> length cs"
    using assms(1,2) by (metis Suc_leI mult_Suc mult_le_mono1 add.commute)
  show "take n (drop (row * n) cs) ! c = cs ! (row * n + c)" using assms le by simp
  show "length (take n (drop (row * n) cs)) = n" using le by simp
qed

subsection \<open>\<open>updateCosts\<close>\<close>

lemma costFrame_fields:
  assumes "costFrame s' = costFrame s"
  shows "numCol s' = numCol s" and "numRow s' = numRow s"
    and "colCovered s' = colCovered s" and "rowCovered s' = rowCovered s"
    and "primedZeros s' = primedZeros s" and "starredZeros s' = starredZeros s"
    and "rowSequence s' = rowSequence s" and "colSequence s' = colSequence s"
    and "colInds s' = colInds s" and "workers s' = workers s"
    and "workerRows s' = workerRows s" and "workerCosts s' = workerCosts s"
proof -
  have f: "f (costFrame s') = f (costFrame s)" for f :: "hungarian \<Rightarrow> 'b"
    using assms by simp
  show "numCol s' = numCol s" using f[of numCol] by (simp add: costFrame_def)
  show "numRow s' = numRow s" using f[of numRow] by (simp add: costFrame_def)
  show "colCovered s' = colCovered s" using f[of colCovered] by (simp add: costFrame_def)
  show "rowCovered s' = rowCovered s" using f[of rowCovered] by (simp add: costFrame_def)
  show "primedZeros s' = primedZeros s" using f[of primedZeros] by (simp add: costFrame_def)
  show "starredZeros s' = starredZeros s" using f[of starredZeros] by (simp add: costFrame_def)
  show "rowSequence s' = rowSequence s" using f[of rowSequence] by (simp add: costFrame_def)
  show "colSequence s' = colSequence s" using f[of colSequence] by (simp add: costFrame_def)
  show "colInds s' = colInds s" using f[of colInds] by (simp add: costFrame_def)
  show "workers s' = workers s" using f[of workers] by (simp add: costFrame_def)
  show "workerRows s' = workerRows s" using f[of workerRows] by (simp add: costFrame_def)
  show "workerCosts s' = workerCosts s" using f[of workerCosts] by (simp add: costFrame_def)
qed

lemma updateCell_frame: "costFrame (updateCell h row col s) = costFrame s"
  by (simp add: updateCell_def costFrame_def Let_def)

lemma updateCell_lengths:
  "length (cost (updateCell h row col s)) = length (cost s)"
  "length (zeros (updateCell h row col s)) = length (zeros s)"
  by (simp_all add: updateCell_def Let_def)

lemma updateCell_cell:
  assumes "numCol s = n" and "length (cost s) = n * n" and "row < n" and "col < n"
    and "r < n" and "c < n"
  shows "cell (updateCell h row col s) r c =
           (if r = row \<and> c = col then minus_T (cell s r c) h else cell s r c)"
proof -
  have i: "row * n + col < length (cost s)" using assms idx_less by simp
  show ?thesis using assms i idx_inj[of col n c row r]
    by (auto simp: updateCell_def cell_def Let_def nth_list_update)
qed

lemma updateCell_zeros:
  assumes "length (zeros s) = n" and "row < n" and "r < n"
  shows "zeros (updateCell h row col s) ! r =
           (if r = row \<and> minus_T (cell s row col) h = Fin 0 then zeros s ! r @ [col]
            else zeros s ! r)"
  using assms by (auto simp: updateCell_def Let_def nth_list_update)

lemma fold_updateCell_frame: "costFrame (fold (updateCell h row) cols s) = costFrame s"
  by (induction cols arbitrary: s) (simp_all add: updateCell_frame)

lemma fold_updateCell_lengths:
  "length (cost (fold (updateCell h row) cols s)) = length (cost s)"
  "length (zeros (fold (updateCell h row) cols s)) = length (zeros s)"
  by (induction cols arbitrary: s) (simp_all add: updateCell_lengths)

lemma fold_updateCell_cell:
  assumes "numCol s = n" and "length (cost s) = n * n" and "row < n" and "\<forall>c\<in>set cols. c < n"
    and "distinct cols" and "r < n" and "c < n"
  shows "cell (fold (updateCell h row) cols s) r c =
           (if r = row \<and> c \<in> set cols then minus_T (cell s r c) h else cell s r c)"
  using assms(1,2,4,5)
proof (induction cols arbitrary: s)
  case Nil
  then show ?case by simp
next
  case (Cons a cols)
  let ?s = "updateCell h row a s"
  have n: "numCol ?s = n" using costFrame_fields(1)[OF updateCell_frame] Cons.prems by simp
  have l: "length (cost ?s) = n * n" using Cons.prems by (simp add: updateCell_lengths)
  have a: "a < n" using Cons.prems by simp
  have IH: "cell (fold (updateCell h row) cols ?s) r c =
      (if r = row \<and> c \<in> set cols then minus_T (cell ?s r c) h else cell ?s r c)"
    using Cons.IH[OF n l] Cons.prems by simp
  have step: "cell ?s r c = (if r = row \<and> c = a then minus_T (cell s r c) h else cell s r c)"
    using updateCell_cell[OF Cons.prems(1,2) assms(3) a assms(6,7)] .
  show ?case using IH step Cons.prems by auto
qed

lemma fold_updateCell_zeros:
  assumes "numCol s = n" and "length (cost s) = n * n" and "length (zeros s) = n"
    and "row < n" and "\<forall>c\<in>set cols. c < n" and "distinct cols" and "r < n"
  shows "zeros (fold (updateCell h row) cols s) ! r =
           (if r = row then zeros s ! r @ filter (\<lambda>c. minus_T (cell s row c) h = Fin 0) cols
            else zeros s ! r)"
  using assms(1,2,3,5,6)
proof (induction cols arbitrary: s)
  case Nil
  then show ?case by simp
next
  case (Cons a cols)
  let ?s = "updateCell h row a s"
  have n: "numCol ?s = n" using costFrame_fields(1)[OF updateCell_frame] Cons.prems by simp
  have l: "length (cost ?s) = n * n" using Cons.prems by (simp add: updateCell_lengths)
  have z: "length (zeros ?s) = n" using Cons.prems by (simp add: updateCell_lengths)
  have a: "a < n" using Cons.prems by simp
  have IH: "zeros (fold (updateCell h row) cols ?s) ! r =
      (if r = row then zeros ?s ! r @ filter (\<lambda>c. minus_T (cell ?s row c) h = Fin 0) cols
       else zeros ?s ! r)"
    using Cons.IH[OF n l z] Cons.prems by simp
  have same: "\<forall>c\<in>set cols. cell ?s row c = cell s row c"
    using updateCell_cell[OF Cons.prems(1,2) assms(4) a assms(4)] Cons.prems by auto
  then have f: "filter (\<lambda>c. minus_T (cell ?s row c) h = Fin 0) cols
      = filter (\<lambda>c. minus_T (cell s row c) h = Fin 0) cols"
    by (auto intro: filter_cong)
  have step: "zeros ?s ! r = (if r = row \<and> minus_T (cell s row a) h = Fin 0
      then zeros s ! r @ [a] else zeros s ! r)"
    using updateCell_zeros[OF Cons.prems(3) assms(4,7)] .
  show ?case using IH step f by auto
qed

lemma updateCostsRow_frame: "costFrame (updateCostsRow h row s) = costFrame s"
  by (simp add: updateCostsRow_def Let_def fold_updateCell_frame) (simp add: costFrame_def)

lemma updateCostsRow_lengths:
  "length (cost (updateCostsRow h row s)) = length (cost s)"
  "length (zeros (updateCostsRow h row s)) = length (zeros s)"
  by (simp_all add: updateCostsRow_def Let_def fold_updateCell_lengths transform_row_length)

lemma updateCostsRow_cell:
  assumes "numCol s = n" and "length (cost s) = n * n" and "row < n"
    and "\<forall>c\<in>set (colInds s). c < n" and "distinct (colInds s)" and "r < n" and "c < n"
  shows "cell (updateCostsRow h row s) r c =
           (if r = row then updatedCell s h r c else cell s r c)"
proof -
  define s1 where "s1 = (if rowCovered s ! row then
       s\<lparr>cost := transform_row (\<lambda>a. plus_T a h) (row * numCol s) (numCol s) (cost s),
         zeros := (zeros s)[row := []]\<rparr> else s)"
  have u: "updateCostsRow h row s = fold (updateCell h row) (colInds s1) s1"
    by (simp add: updateCostsRow_def s1_def Let_def)
  have n1: "numCol s1 = n" and ci: "colInds s1 = colInds s" using assms(1) by (auto simp: s1_def)
  have l1: "length (cost s1) = n * n" using assms(2) by (simp add: s1_def transform_row_length)
  have c1: "cell s1 r c = (if r = row \<and> rowCovered s ! row then plus_T (cell s r c) h else cell s r c)"
    using assms(1) transform_row_cell[OF assms(2,3,6,7), where f = "\<lambda>a. plus_T a h"]
    by (cases "r = row") (simp_all add: s1_def cell_def)
  have "cell (updateCostsRow h row s) r c =
      (if r = row \<and> c \<in> set (colInds s) then minus_T (cell s1 r c) h else cell s1 r c)"
    unfolding u using fold_updateCell_cell[OF n1 l1 assms(3) _ _ assms(6,7)] assms(4,5) ci by simp
  then show ?thesis using c1 by (auto simp: updatedCell_def Let_def)
qed

lemma updateCostsRow_zeros:
  assumes "numCol s = n" and "length (cost s) = n * n" and "length (zeros s) = n" and "row < n"
    and "\<forall>c\<in>set (colInds s). c < n" and "distinct (colInds s)" and "r < n"
  shows "zeros (updateCostsRow h row s) ! r = (if r = row then updatedZeros s h r else zeros s ! r)"
proof -
  define s1 where "s1 = (if rowCovered s ! row then
       s\<lparr>cost := transform_row (\<lambda>a. plus_T a h) (row * numCol s) (numCol s) (cost s),
         zeros := (zeros s)[row := []]\<rparr> else s)"
  have u: "updateCostsRow h row s = fold (updateCell h row) (colInds s1) s1"
    by (simp add: updateCostsRow_def s1_def Let_def)
  have n1: "numCol s1 = n" and ci: "colInds s1 = colInds s" using assms(1) by (auto simp: s1_def)
  have l1: "length (cost s1) = n * n" using assms(2) by (simp add: s1_def transform_row_length)
  have z1: "length (zeros s1) = n" using assms(3) by (simp add: s1_def)
  have c1: "\<forall>c\<in>set (colInds s). cell s1 row c =
       (if rowCovered s ! row then plus_T (cell s row c) h else cell s row c)"
    using assms(1,5) transform_row_cell[OF assms(2,4,4), where f = "\<lambda>a. plus_T a h"]
    by (simp add: s1_def cell_def)
  have zz: "zeros s1 ! r = (if r = row \<and> rowCovered s ! row then [] else zeros s ! r)"
    using assms by (simp add: s1_def nth_list_update)
  have f: "filter (\<lambda>c. minus_T (cell s1 row c) h = Fin 0) (colInds s)
      = filter (\<lambda>c. updatedCell s h row c = Fin 0) (colInds s)"
    using c1 by (intro filter_cong refl) (simp add: updatedCell_def Let_def)
  have "zeros (updateCostsRow h row s) ! r =
      (if r = row then zeros s1 ! r @ filter (\<lambda>c. minus_T (cell s1 row c) h = Fin 0) (colInds s)
       else zeros s1 ! r)"
    unfolding u using fold_updateCell_zeros[OF n1 l1 z1 assms(4) _ _ assms(7)] assms(5,6) ci by simp
  then show ?thesis using zz f by (auto simp: updatedZeros_def)
qed

lemma fold_updateCostsRow_frame: "costFrame (fold (updateCostsRow h) rows s) = costFrame s"
  by (induction rows arbitrary: s) (simp_all add: updateCostsRow_frame)

lemma fold_updateCostsRow_lengths:
  "length (cost (fold (updateCostsRow h) rows s)) = length (cost s)"
  "length (zeros (fold (updateCostsRow h) rows s)) = length (zeros s)"
  by (induction rows arbitrary: s) (simp_all add: updateCostsRow_lengths)

lemma updatedCell_cong:
  assumes "costFrame s' = costFrame s" and "cell s' r c = cell s r c"
  shows "updatedCell s' h r c = updatedCell s h r c"
  using assms(2) costFrame_fields[OF assms(1)] by (simp add: updatedCell_def)

lemma fold_updateCostsRow_cell_zeros:
  assumes "numCol s = n" and "length (cost s) = n * n" and "length (zeros s) = n"
    and "\<forall>row\<in>set rows. row < n" and "distinct rows"
    and "\<forall>c\<in>set (colInds s). c < n" and "distinct (colInds s)" and "r < n"
  shows "(\<forall>c<n. cell (fold (updateCostsRow h) rows s) r c =
            (if r \<in> set rows then updatedCell s h r c else cell s r c)) \<and>
         zeros (fold (updateCostsRow h) rows s) ! r =
            (if r \<in> set rows then updatedZeros s h r else zeros s ! r)"
  using assms(1,2,3,4,5,6,7)
proof (induction rows arbitrary: s)
  case Nil
  then show ?case by simp
next
  case (Cons a rows)
  let ?s = "updateCostsRow h a s"
  note fr = costFrame_fields[OF updateCostsRow_frame[of h a s]]
  have a: "a < n" using Cons.prems by simp
  have n: "numCol ?s = n" using fr Cons.prems by simp
  have l: "length (cost ?s) = n * n" using Cons.prems by (simp add: updateCostsRow_lengths)
  have z: "length (zeros ?s) = n" using Cons.prems by (simp add: updateCostsRow_lengths)
  have ci: "colInds ?s = colInds s" using fr by simp
  have IH: "(\<forall>c<n. cell (fold (updateCostsRow h) rows ?s) r c =
            (if r \<in> set rows then updatedCell ?s h r c else cell ?s r c)) \<and>
         zeros (fold (updateCostsRow h) rows ?s) ! r =
            (if r \<in> set rows then updatedZeros ?s h r else zeros ?s ! r)"
    using Cons.IH[OF n l z] Cons.prems ci by simp
  have cs: "\<forall>c<n. cell ?s r c = (if r = a then updatedCell s h r c else cell s r c)"
    using updateCostsRow_cell[OF Cons.prems(1,2) a Cons.prems(6,7) assms(8)] by simp
  have zs: "zeros ?s ! r = (if r = a then updatedZeros s h r else zeros s ! r)"
    using updateCostsRow_zeros[OF Cons.prems(1,2,3) a Cons.prems(6,7) assms(8)] .
  show ?case
  proof (cases "r \<in> set rows")
    case True
    then have ra: "r \<noteq> a" using Cons.prems by auto
    have uc: "\<forall>c<n. updatedCell ?s h r c = updatedCell s h r c"
      using cs ra updatedCell_cong[OF updateCostsRow_frame] by simp
    have "\<forall>c\<in>set (colInds s). updatedCell ?s h r c = updatedCell s h r c"
      using uc Cons.prems by simp
    then have "filter (\<lambda>c. updatedCell ?s h r c = Fin 0) (colInds s)
        = filter (\<lambda>c. updatedCell s h r c = Fin 0) (colInds s)"
      by (auto intro!: filter_cong)
    then have uz: "updatedZeros ?s h r = updatedZeros s h r"
      using zs ra fr by (simp add: updatedZeros_def)
    show ?thesis using IH True uc uz by simp
  next
    case False
    then show ?thesis using IH cs zs by simp
  qed
qed

lemma updateCostsWorker_frame: "costFrame (updateCostsWorker h i s) = costFrame s"
  by (simp add: updateCostsWorker_def fold_updateCostsRow_frame)

text \<open>
  With the rows split into consecutive ranges, running the workers one after the other is
  one pass over all the rows.
\<close>

lemma fold_updateCostsWorker_flat:
  assumes "\<forall>i<k. wr ! i \<le> wr ! (i + 1)" and "workerRows s = wr"
  shows "fold (updateCostsWorker h) [0..<k] s = fold (updateCostsRow h) [wr ! 0..<wr ! k] s"
  using assms(1)
proof (induction k)
  case 0
  then show ?case by simp
next
  case (Suc k)
  let ?s = "fold (updateCostsRow h) [wr ! 0..<wr ! k] s"
  have w: "workerRows ?s = wr"
    using costFrame_fields(11)[OF fold_updateCostsRow_frame] assms(2) by simp
  have m: "wr ! 0 \<le> wr ! k" using Suc.prems
  proof (induction k)
    case 0
    then show ?case by simp
  next
    case (Suc k)
    then have "wr ! 0 \<le> wr ! k" by simp
    moreover have "wr ! k \<le> wr ! (k + 1)" using Suc.prems by simp
    ultimately show ?case by simp
  qed
  have k: "wr ! k \<le> wr ! (k + 1)" using Suc.prems by simp
  have "[wr ! 0..<wr ! Suc k] = [wr ! 0..<wr ! k] @ [wr ! k..<wr ! Suc k]"
    using m k by (metis Suc_eq_plus1 upt_add_eq_append le_Suc_ex)
  then show ?case using Suc w by (simp add: updateCostsWorker_def)
qed

lemma updateCosts_flat:
  assumes "rowPartition (workers s) (numRow s) (workerRows s)"
  shows "updateCosts h s = fold (updateCostsRow h) [0..<numRow s] s"
  using fold_updateCostsWorker_flat[of "workers s" "workerRows s" s h] assms
  by (simp add: updateCosts_def rowPartition_def)

subsection \<open>\<open>findMinUncoveredCost\<close>\<close>

lemma ec_less_irrefl: "\<not> ec_less a a"
  by (cases a) auto

lemma ec_less_trans: "ec_less a b \<Longrightarrow> ec_less b c \<Longrightarrow> ec_less a c"
  by (cases a; cases b; cases c) auto

lemma ec_less_total: "a = b \<or> ec_less a b \<or> ec_less b a"
  by (cases a; cases b) auto

lemma ec_less_asym: "ec_less a b \<Longrightarrow> \<not> ec_less b a"
  by (cases a; cases b) auto

lemma ec_le_trans: "\<not> ec_less b a \<Longrightarrow> \<not> ec_less c b \<Longrightarrow> \<not> ec_less c a"
  by (cases a; cases b; cases c) auto

lemma ec_le_antisym: "\<not> ec_less b a \<Longrightarrow> \<not> ec_less a b \<Longrightarrow> a = b"
  by (cases a; cases b) auto

lemma ec_less_Inf: "\<not> ec_less Inf a"
  by simp

lemma fold_min_spec:
  fixes vs :: "ecost list"
  defines "g \<equiv> (\<lambda>v m. if ec_less v m then v else m)"
  shows "\<not> ec_less m (fold g vs m) \<and> (\<forall>v\<in>set vs. \<not> ec_less v (fold g vs m)) \<and>
         (fold g vs m = m \<or> fold g vs m \<in> set vs)"
proof (induction vs arbitrary: m)
  case Nil
  then show ?case by (simp add: ec_less_irrefl)
next
  case (Cons a vs)
  let ?r = "fold g vs (g a m)"
  have s: "\<not> ec_less m (g a m)" "\<not> ec_less a (g a m)" "g a m = m \<or> g a m = a"
    by (auto simp: g_def ec_less_irrefl ec_less_asym)
  have IH: "\<not> ec_less (g a m) ?r" "\<forall>v\<in>set vs. \<not> ec_less v ?r" "?r = g a m \<or> ?r \<in> set vs"
    using Cons[of "g a m"] by auto
  have 1: "\<not> ec_less m ?r" using ec_le_trans[OF IH(1) s(1)] .
  have 2: "\<not> ec_less a ?r" using ec_le_trans[OF IH(1) s(2)] .
  have 3: "?r = m \<or> ?r \<in> set (a # vs)" using IH(3) s(3) by auto
  show ?case using 1 2 3 IH(2) by simp
qed

lemma min_element_spec:
  assumes "xs \<noteq> []"
  shows "(\<forall>v\<in>set xs. \<not> ec_less v (min_element xs)) \<and> min_element xs \<in> set xs"
proof -
  obtain x ys where xs: "xs = x # ys" using assms by (cases xs) auto
  define r where "r = fold (\<lambda>y m. if ec_less y m then y else m) ys x"
  have m: "min_element xs = r"
    by (simp add: min_element_def xs r_def)
  have "\<not> ec_less x r \<and> (\<forall>v\<in>set ys. \<not> ec_less v r) \<and> (r = x \<or> r \<in> set ys)"
    unfolding r_def by (rule fold_min_spec)
  then show ?thesis unfolding m by (auto simp: xs)
qed

lemma minCostRow_fold_cols:
  "fold (\<lambda>col m. if ec_less (cell s row col) m then cell s row col else m) cols m =
   fold (\<lambda>v m. if ec_less v m then v else m) (map (cell s row) cols) m"
  by (simp add: fold_map comp_def)

lemma minCostRow_spec:
  "\<not> ec_less m (minCostRow s row m) \<and>
   (\<not> rowCovered s ! row \<longrightarrow> (\<forall>c\<in>set (colInds s). \<not> ec_less (cell s row c) (minCostRow s row m))) \<and>
   (minCostRow s row m = m \<or>
      (\<not> rowCovered s ! row \<and> (\<exists>c\<in>set (colInds s). cell s row c = minCostRow s row m)))"
  using fold_min_spec[of m "map (cell s row) (colInds s)"]
  by (auto simp: minCostRow_def minCostRow_fold_cols ec_less_irrefl)

lemma fold_minCostRow_spec:
  "\<not> ec_less m (fold (minCostRow s) rows m) \<and>
   (\<forall>row\<in>set rows. \<not> rowCovered s ! row \<longrightarrow>
       (\<forall>c\<in>set (colInds s). \<not> ec_less (cell s row c) (fold (minCostRow s) rows m))) \<and>
   (fold (minCostRow s) rows m = m \<or>
      (\<exists>row\<in>set rows. \<not> rowCovered s ! row \<and>
          (\<exists>c\<in>set (colInds s). cell s row c = fold (minCostRow s) rows m)))"
proof (induction rows arbitrary: m)
  case Nil
  then show ?case by (simp add: ec_less_irrefl)
next
  case (Cons a rows)
  let ?m = "minCostRow s a m"
  let ?r = "fold (minCostRow s) rows ?m"
  note A = minCostRow_spec[of m s a]
  note B = Cons[of ?m]
  have "\<not> ec_less ?m ?r" "\<not> ec_less m ?m" using A B by blast+
  then have 1: "\<not> ec_less m ?r" by (rule ec_le_trans)
  have 2: "\<forall>row\<in>set (a # rows). \<not> rowCovered s ! row \<longrightarrow>
       (\<forall>c\<in>set (colInds s). \<not> ec_less (cell s row c) ?r)"
  proof (intro ballI impI)
    fix row c assume row: "row \<in> set (a # rows)" "\<not> rowCovered s ! row" and c: "c \<in> set (colInds s)"
    show "\<not> ec_less (cell s row c) ?r"
    proof (cases "row \<in> set rows")
      case True
      then show ?thesis using B row c by blast
    next
      case False
      then have "row = a" using row by simp
      then have "\<not> ec_less (cell s row c) ?m" using A row c by blast
      moreover have "\<not> ec_less ?m ?r" using B by blast
      ultimately show ?thesis by (rule ec_le_trans[rotated])
    qed
  qed
  have 3: "?r = m \<or> (\<exists>row\<in>set (a # rows). \<not> rowCovered s ! row \<and>
          (\<exists>c\<in>set (colInds s). cell s row c = ?r))"
    using A B by (cases "?r = ?m") auto
  show ?case using 1 2 3 by simp
qed

lemma findMinUncoveredCostWorker_frame:
  "minFrame (findMinUncoveredCostWorker i s) = minFrame s"
  by (simp add: findMinUncoveredCostWorker_def minFrame_def)

lemma minFrame_fields:
  assumes "minFrame s' = minFrame s"
  shows "numCol s' = numCol s" and "numRow s' = numRow s"
    and "colCovered s' = colCovered s" and "rowCovered s' = rowCovered s"
    and "primedZeros s' = primedZeros s" and "starredZeros s' = starredZeros s"
    and "rowSequence s' = rowSequence s" and "colSequence s' = colSequence s"
    and "colInds s' = colInds s" and "workers s' = workers s"
    and "workerRows s' = workerRows s" and "cost s' = cost s" and "zeros s' = zeros s"
proof -
  have f: "f (minFrame s') = f (minFrame s)" for f :: "hungarian \<Rightarrow> 'b"
    using assms by simp
  show "numCol s' = numCol s" using f[of numCol] by (simp add: minFrame_def)
  show "numRow s' = numRow s" using f[of numRow] by (simp add: minFrame_def)
  show "colCovered s' = colCovered s" using f[of colCovered] by (simp add: minFrame_def)
  show "rowCovered s' = rowCovered s" using f[of rowCovered] by (simp add: minFrame_def)
  show "primedZeros s' = primedZeros s" using f[of primedZeros] by (simp add: minFrame_def)
  show "starredZeros s' = starredZeros s" using f[of starredZeros] by (simp add: minFrame_def)
  show "rowSequence s' = rowSequence s" using f[of rowSequence] by (simp add: minFrame_def)
  show "colSequence s' = colSequence s" using f[of colSequence] by (simp add: minFrame_def)
  show "colInds s' = colInds s" using f[of colInds] by (simp add: minFrame_def)
  show "workers s' = workers s" using f[of workers] by (simp add: minFrame_def)
  show "workerRows s' = workerRows s" using f[of workerRows] by (simp add: minFrame_def)
  show "cost s' = cost s" using f[of cost] by (simp add: minFrame_def)
  show "zeros s' = zeros s" using f[of zeros] by (simp add: minFrame_def)
qed

lemma minCostRow_cong:
  assumes "minFrame s' = minFrame s"
  shows "minCostRow s' = minCostRow s"
proof -
  have "cell s' = cell s" using minFrame_fields[OF assms] by (simp add: cell_def fun_eq_iff)
  then show ?thesis using minFrame_fields[OF assms]
    by (simp add: minCostRow_def fun_eq_iff cong: if_cong)
qed

text \<open>After the workers \<open>0..k-1\<close> have run, their slots hold the minima of their ranges.\<close>

lemma fold_findMinWorker:
  assumes "k \<le> length (workerCosts s)"
  shows "minFrame (fold findMinUncoveredCostWorker [0..<k] s) = minFrame s \<and>
         length (workerCosts (fold findMinUncoveredCostWorker [0..<k] s)) = length (workerCosts s) \<and>
         (\<forall>i<length (workerCosts s).
            workerCosts (fold findMinUncoveredCostWorker [0..<k] s) ! i =
              (if i < k then fold (minCostRow s) [workerRows s ! i..<workerRows s ! (i + 1)]
                                 (workerCosts s ! i)
               else workerCosts s ! i))"
  using assms
proof (induction k)
  case 0
  then show ?case by simp
next
  case (Suc k)
  let ?t = "fold findMinUncoveredCostWorker [0..<k] s"
  have IH: "minFrame ?t = minFrame s" "length (workerCosts ?t) = length (workerCosts s)"
    "\<forall>i<length (workerCosts s). workerCosts ?t ! i =
        (if i < k then fold (minCostRow s) [workerRows s ! i..<workerRows s ! (i + 1)]
                                 (workerCosts s ! i)
         else workerCosts s ! i)"
    using Suc by simp_all
  have wr: "workerRows ?t = workerRows s" using minFrame_fields(11)[OF IH(1)] .
  have mc: "minCostRow ?t = minCostRow s" using minCostRow_cong[OF IH(1)] .
  have k: "k < length (workerCosts s)" using Suc.prems by simp
  have step: "fold findMinUncoveredCostWorker [0..<Suc k] s = findMinUncoveredCostWorker k ?t"
    by simp
  have 1: "minFrame (findMinUncoveredCostWorker k ?t) = minFrame s"
    using IH(1) by (simp add: findMinUncoveredCostWorker_frame)
  have 2: "length (workerCosts (findMinUncoveredCostWorker k ?t)) = length (workerCosts s)"
    using IH(2) by (simp add: findMinUncoveredCostWorker_def)
  have 3: "\<forall>i<length (workerCosts s). workerCosts (findMinUncoveredCostWorker k ?t) ! i =
        (if i < Suc k then fold (minCostRow s) [workerRows s ! i..<workerRows s ! (i + 1)]
                                 (workerCosts s ! i)
         else workerCosts s ! i)"
    using IH(2,3) k by (auto simp: findMinUncoveredCostWorker_def wr mc nth_list_update less_Suc_eq)
  show ?case unfolding step using 1 2 3 by blast
qed

lemma isMinUncovered_unique:
  assumes "isMinUncovered s h" and "isMinUncovered s h'"
  shows "h = h'"
proof -
  have a: "\<not> ec_less h' h"
  proof (cases "h' = Inf")
    case True
    then show ?thesis using assms(1)
      by (cases h) (auto)
  next
    case False
    then show ?thesis using assms by (auto simp: isMinUncovered_def)
  qed
  have b: "\<not> ec_less h h'"
  proof (cases "h = Inf")
    case True
    then show ?thesis by simp
  next
    case False
    then show ?thesis using assms by (auto simp: isMinUncovered_def)
  qed
  show ?thesis using ec_le_antisym[OF a b] by simp
qed

lemma findMinUncoveredCost_spec:
  assumes wf: "wf s" and part: "rowPartition (workers s) (numRow s) (workerRows s)"
    and ci: "colInds s = filter (\<lambda>col. \<not> colCovered s ! col) [0..<numCol s]"
  shows "minFrame (snd (findMinUncoveredCost s)) = minFrame s"
    and "length (workerCosts (snd (findMinUncoveredCost s))) = workers s"
    and "isMinUncovered s (fst (findMinUncoveredCost s))"
proof -
  define s1 where "s1 = s\<lparr>workerCosts := replicate (length (workerCosts s)) Inf\<rparr>"
  define s2 where "s2 = fold findMinUncoveredCostWorker [0..<workers s1] s1"
  define h where "h = min_element (workerCosts s2)"
  have res: "findMinUncoveredCost s = (h, s2)"
    by (simp add: findMinUncoveredCost_def Let_def s1_def s2_def h_def)
  have w: "0 < workers s" "length (workerCosts s) = workers s" using wf by (auto simp: wf_def)
  have f1: "minFrame s1 = minFrame s" by (simp add: s1_def minFrame_def)
  have w1: "workers s1 = workers s" "length (workerCosts s1) = workers s"
    using w by (simp_all add: s1_def)
  have mc: "minCostRow s1 = minCostRow s" using minCostRow_cong[OF f1] .
  have wr1: "workerRows s1 = workerRows s" by (simp add: s1_def)
  have wci: "\<forall>i<workers s. workerCosts s1 ! i = Inf" using w by (simp add: s1_def)
  have "workers s1 \<le> length (workerCosts s1)" using w1 by simp
  from fold_findMinWorker[OF this, folded s2_def]
  have f2: "minFrame s2 = minFrame s1" and l2: "length (workerCosts s2) = workers s"
    and wc: "\<forall>i<workers s. workerCosts s2 ! i =
        fold (minCostRow s) [workerRows s ! i..<workerRows s ! (i + 1)] Inf"
    using w1 wci by (simp_all add: mc wr1)
  show "minFrame (snd (findMinUncoveredCost s)) = minFrame s" using f1 f2 by (simp add: res)
  show "length (workerCosts (snd (findMinUncoveredCost s))) = workers s" using l2 by (simp add: res)
  have ne: "workerCosts s2 \<noteq> []" using l2 w by auto
  note M = min_element_spec[OF ne, folded h_def]
  have lower: "\<not> ec_less (cell s r c) h"
    if r: "r < numRow s" "\<not> rowCovered s ! r" and c: "c < numCol s" "\<not> colCovered s ! c" for r c
  proof -
    obtain i where i: "i < workers s" "workerRows s ! i \<le> r" "r < workerRows s ! (i + 1)"
      using rowPartition_owner[OF part r(1)] by blast
    have cin: "c \<in> set (colInds s)" using c by (simp add: ci)
    have rin: "r \<in> set [workerRows s ! i..<workerRows s ! (i + 1)]" using i by simp
    have "\<not> ec_less (cell s r c) (workerCosts s2 ! i)"
      using fold_minCostRow_spec[of Inf s "[workerRows s ! i..<workerRows s ! (i + 1)]"]
        rin r(2) cin wc i(1) by auto
    moreover have "\<not> ec_less (workerCosts s2 ! i) h" using M i(1) l2 by simp
    ultimately show ?thesis by (rule ec_le_trans[rotated])
  qed
  have att: "h = Inf \<or> (\<exists>r<numRow s. \<exists>c<numCol s. \<not> rowCovered s ! r \<and> \<not> colCovered s ! c
         \<and> cell s r c = h)"
  proof -
    obtain i where i: "i < workers s" "h = workerCosts s2 ! i"
      using M l2 by (auto simp: in_set_conv_nth)
    let ?rows = "[workerRows s ! i..<workerRows s ! (i + 1)]"
    have hh: "h = fold (minCostRow s) ?rows Inf" using i wc by simp
    from fold_minCostRow_spec[of Inf s ?rows]
    consider "h = Inf"
      | row c where "row \<in> set ?rows" "\<not> rowCovered s ! row" "c \<in> set (colInds s)" "cell s row c = h"
      unfolding hh by blast
    then show ?thesis
    proof cases
      case 1
      then show ?thesis by simp
    next
      case 2
      have "workerRows s ! (i + 1) \<le> workerRows s ! workers s"
        using rowPartition_mono[OF part, of "i + 1" "workers s"] i(1) by simp
      then have "row < numRow s" using 2(1) part by (simp add: rowPartition_def)
      moreover have "c < numCol s" "\<not> colCovered s ! c" using 2(3) by (simp_all add: ci)
      ultimately show ?thesis using 2 by blast
    qed
  qed
  show "isMinUncovered s (fst (findMinUncoveredCost s))"
    using lower att by (simp add: res isMinUncovered_def)
qed

subsection \<open>The loop of \<open>iterate\<close>\<close>

lemma findUncoveredZeroFrom_Some:
  "findUncoveredZeroFrom s rows = Some (r, c) \<Longrightarrow>
   r \<in> set rows \<and> \<not> rowCovered s ! r \<and> c \<in> set (zeros s ! r) \<and> \<not> colCovered s ! c"
proof (induction rows)
  case Nil
  then show ?case by simp
next
  case (Cons a rows)
  then show ?case
    by (auto split: if_splits option.splits simp: find_Some_iff)
qed

lemma findUncoveredZeroFrom_None:
  "findUncoveredZeroFrom s rows = None \<Longrightarrow>
   \<forall>r\<in>set rows. \<not> rowCovered s ! r \<longrightarrow> (\<forall>c\<in>set (zeros s ! r). colCovered s ! c)"
proof (induction rows)
  case Nil
  then show ?case by simp
next
  case (Cons a rows)
  then show ?case
    by (auto split: if_splits option.splits simp: find_None_iff)
qed

lemma findUncoveredZero_Some:
  assumes "findUncoveredZero s = Some (r, c)"
  shows "r < numRow s" and "\<not> rowCovered s ! r" and "c \<in> set (zeros s ! r)" and "\<not> colCovered s ! c"
  using findUncoveredZeroFrom_Some[of s "[0..<numRow s]" r c] assms
  by (simp_all add: findUncoveredZero_def)

lemma findUncoveredZero_None:
  assumes "findUncoveredZero s = None" and "r < numRow s" and "\<not> rowCovered s ! r"
    and "c \<in> set (zeros s ! r)"
  shows "colCovered s ! c"
  using findUncoveredZeroFrom_None[of s "[0..<numRow s]"] assms
  by (simp add: findUncoveredZero_def)

lemma findUncoveredZero_cong:
  assumes "numRow s' = numRow s" and "rowCovered s' = rowCovered s"
    and "colCovered s' = colCovered s" and "zeros s' = zeros s"
  shows "findUncoveredZero s' = findUncoveredZero s"
proof -
  have "findUncoveredZeroFrom s' rows = findUncoveredZeroFrom s rows" for rows
    by (induction rows) (simp_all add: assms cong: option.case_cong)
  then show ?thesis by (simp add: findUncoveredZero_def assms)
qed

lemma cell_cong: "numCol s' = numCol s \<Longrightarrow> cost s' = cost s \<Longrightarrow> cell s' = cell s"
  by (simp add: cell_def fun_eq_iff)

lemma coreInv_cong:
  assumes "coreInv cs0 s" and "wf s'" and "numRow s' = numRow s" and "numCol s' = numCol s"
    and "cost s' = cost s" and "zeros s' = zeros s" and "starredZeros s' = starredZeros s"
  shows "coreInv cs0 s'"
  using assms cell_cong[OF assms(4,5)]
  by (simp add: coreInv_def zerosExact_def starsOneToOne_def starsOnZeros_def nonNegative_def
      reducedFrom_def)

lemma primeFrame_fields:
  assumes "primeFrame s' = primeFrame s"
  shows "numCol s' = numCol s" and "numRow s' = numRow s"
    and "cost s' = cost s" and "zeros s' = zeros s" and "starredZeros s' = starredZeros s"
    and "rowSequence s' = rowSequence s" and "colSequence s' = colSequence s"
    and "colInds s' = colInds s" and "workers s' = workers s"
    and "workerRows s' = workerRows s" and "workerCosts s' = workerCosts s"
proof -
  have f: "f (primeFrame s') = f (primeFrame s)" for f :: "hungarian \<Rightarrow> 'b"
    using assms by simp
  show "numCol s' = numCol s" using f[of numCol] by (simp add: primeFrame_def)
  show "numRow s' = numRow s" using f[of numRow] by (simp add: primeFrame_def)
  show "cost s' = cost s" using f[of cost] by (simp add: primeFrame_def)
  show "zeros s' = zeros s" using f[of zeros] by (simp add: primeFrame_def)
  show "starredZeros s' = starredZeros s" using f[of starredZeros] by (simp add: primeFrame_def)
  show "rowSequence s' = rowSequence s" using f[of rowSequence] by (simp add: primeFrame_def)
  show "colSequence s' = colSequence s" using f[of colSequence] by (simp add: primeFrame_def)
  show "colInds s' = colInds s" using f[of colInds] by (simp add: primeFrame_def)
  show "workers s' = workers s" using f[of workers] by (simp add: primeFrame_def)
  show "workerRows s' = workerRows s" using f[of workerRows] by (simp add: primeFrame_def)
  show "workerCosts s' = workerCosts s" using f[of workerCosts] by (simp add: primeFrame_def)
qed

lemma filter_update_True:
  assumes "r < length xs" and "\<not> xs ! r"
  shows "length (filter (\<lambda>b. \<not> b) (xs[r := True])) < length (filter (\<lambda>b. \<not> b) xs)"
proof -
  have a: "xs = take r xs @ xs ! r # drop (Suc r) xs" using assms(1) by (rule id_take_nth_drop)
  have b: "xs[r := True] = take r xs @ True # drop (Suc r) xs"
    using assms(1) by (rule upd_conv_take_nth_drop)
  have "length (filter (\<lambda>b. \<not> b) xs) =
      length (filter (\<lambda>b. \<not> b) (take r xs)) + 1 + length (filter (\<lambda>b. \<not> b) (drop (Suc r) xs))"
    using assms(2) by (subst a) simp
  moreover have "length (filter (\<lambda>b. \<not> b) (xs[r := True])) =
      length (filter (\<lambda>b. \<not> b) (take r xs)) + length (filter (\<lambda>b. \<not> b) (drop (Suc r) xs))"
    by (subst b) simp
  ultimately show ?thesis by simp
qed

text \<open>The facts about an uncovered zero that the loop of \<open>iterate\<close> has found.\<close>

lemma uncoveredZero_facts:
  assumes "coreInv cs0 s" and "findUncoveredZero s = Some (r, c)"
  shows "r < numRow s" and "c < numCol s" and "\<not> rowCovered s ! r" and "\<not> colCovered s ! c"
    and "cell s r c = Fin 0"
proof -
  note f = findUncoveredZero_Some[OF assms(2)]
  show "r < numRow s" "\<not> rowCovered s ! r" "\<not> colCovered s ! c" using f by simp_all
  have "c \<in> {c. c < numCol s \<and> cell s r c = Fin 0}"
    using assms(1) f(1,3) by (auto simp: coreInv_def zerosExact_def)
  then show "c < numCol s" "cell s r c = Fin 0" by simp_all
qed

text \<open>Priming a zero in an uncovered row keeps every invariant.\<close>

lemma prime_inv:
  fixes c :: nat
  assumes core: "coreInv cs0 s" and loop: "loopInv s" and r: "r < numRow s" "\<not> rowCovered s ! r"
  defines "s' \<equiv> s\<lparr>primedZeros := (primedZeros s)[r := c]\<rparr>"
  shows "coreInv cs0 s'" and "loopInv s'"
proof -
  have wf: "wf s" using core by (simp add: coreInv_def)
  have wf': "wf s'" using wf by (simp add: wf_def s'_def)
  show "coreInv cs0 s'" by (rule coreInv_cong[OF core wf']) (simp_all add: s'_def)
  have ce: "cell s' = cell s" by (rule cell_cong) (simp_all add: s'_def)
  have len: "r < length (primedZeros s)" using wf r by (simp add: wf_def)
  have pr: "primedZeros s' ! x = primedZeros s ! x" if "rowCovered s ! x" for x
    using r that by (cases "x = r") (simp_all add: s'_def)
  have "coverInv s'"
    using loop pr unfolding loopInv_def coverInv_def ce by (simp add: s'_def)
  moreover have "chainsEnd s'"
  proof -
    obtain rank :: "nat \<Rightarrow> nat" where "\<forall>r<numRow s. \<forall>r'<numRow s.
        rowCovered s ! r \<and> starredZeros s ! r' = Some (primedZeros s ! r) \<longrightarrow> rank r' < rank r"
      using loop unfolding loopInv_def chainsEnd_def by blast
    then have "\<forall>r<numRow s'. \<forall>r'<numRow s'.
        rowCovered s' ! r \<and> starredZeros s' ! r' = Some (primedZeros s' ! r) \<longrightarrow> rank r' < rank r"
      using pr by (simp add: s'_def)
    then show ?thesis unfolding chainsEnd_def by blast
  qed
  ultimately show "loopInv s'" by (simp add: loopInv_def)
qed

text \<open>
  One turn of the loop that stays in it: the zero \<open>(r, c)\<close> lies in a row starred in
  column \<open>c0\<close>; the row is covered and the column \<open>c0\<close> uncovered.
\<close>

lemma coverStep_inv:
  assumes core: "coreInv cs0 s" and loop: "loopInv s"
    and z: "findUncoveredZero s = Some (r, c)" and st: "starredZeros s ! r = Some c0"
  defines "s' \<equiv> s\<lparr>primedZeros := (primedZeros s)[r := c],
                    rowCovered := (rowCovered s)[r := True],
                    colCovered := (colCovered s)[c0 := False]\<rparr>"
  shows "coreInv cs0 s'" and "loopInv s'" and "uncoveredRows s' < uncoveredRows s"
    and "primeFrame s' = primeFrame s"
proof -
  note zf = uncoveredZero_facts[OF core z]
  have wf: "wf s" using core by (simp add: coreInv_def)
  have n: "numCol s = numRow s" and lens: "length (rowCovered s) = numRow s"
    "length (colCovered s) = numRow s" "length (primedZeros s) = numRow s"
    using wf by (simp_all add: wf_def)
  have wf': "wf s'" using wf by (simp add: wf_def s'_def)
  show "coreInv cs0 s'" by (rule coreInv_cong[OF core wf']) (simp_all add: s'_def)
  show "primeFrame s' = primeFrame s" by (simp add: s'_def primeFrame_def)
  show "uncoveredRows s' < uncoveredRows s"
    using filter_update_True[of r "rowCovered s"] zf lens by (simp add: uncoveredRows_def s'_def)
  have ce: "cell s' = cell s" by (rule cell_cong) (simp_all add: s'_def)
  have cov: "coverInv s" using loop by (simp add: loopInv_def)
  note C1 = cov[unfolded coverInv_def, THEN conjunct1, rule_format]
  note C2 = cov[unfolded coverInv_def, THEN conjunct2, THEN conjunct1, rule_format]
  note C3 = cov[unfolded coverInv_def, THEN conjunct2, THEN conjunct2, THEN conjunct1, rule_format]
  note C4 = cov[unfolded coverInv_def, THEN conjunct2, THEN conjunct2, THEN conjunct2]
  have one: "starsOneToOne s" and onz: "starsOnZeros s"
    using core by (simp_all add: coreInv_def)
  have c0cov: "colCovered s ! c0" using C2[of r c0] zf st by simp
  have c0n: "c0 < numRow s" using onz zf(1) st n by (auto simp: starsOnZeros_def)
  have cc0: "c \<noteq> c0" using c0cov zf(4) by auto
  have rc': "rowCovered s' ! x = (x = r \<or> rowCovered s ! x)" if "x < numRow s" for x
    using that lens zf(1) by (auto simp: s'_def nth_list_update)
  have cc': "colCovered s' ! x = (x \<noteq> c0 \<and> colCovered s ! x)" for x
    using lens c0n by (cases "x = c0") (auto simp: s'_def)
  have pz': "primedZeros s' ! x = (if x = r then c else primedZeros s ! x)" if "x < numRow s" for x
    using that lens by (auto simp: s'_def nth_list_update)
  have fs: "numRow s' = numRow s" "numCol s' = numCol s" "starredZeros s' = starredZeros s"
    by (simp_all add: s'_def)
  have P1: "(\<exists>k. starredZeros s' ! x = Some k \<and> \<not> colCovered s' ! k) \<and>
        primedZeros s' ! x < numCol s' \<and> \<not> colCovered s' ! (primedZeros s' ! x) \<and>
        cell s' x (primedZeros s' ! x) = Fin 0"
    if x: "x < numRow s'" "rowCovered s' ! x" for x
  proof (cases "x = r")
    case True
    then show ?thesis using st zf cc0 x by (simp add: fs cc' pz' ce)
  next
    case False
    then have "rowCovered s ! x" using x by (simp add: fs rc')
    from C1[OF _ this] x False show ?thesis by (auto simp: fs cc' pz' ce)
  qed
  have P2: "colCovered s' ! k"
    if x: "x < numRow s'" "starredZeros s' ! x = Some k \<and> \<not> rowCovered s' ! x" for x k
  proof -
    have xr: "x \<noteq> r" "\<not> rowCovered s ! x" using x by (auto simp: fs rc')
    have "colCovered s ! k" using C2[of x k] x xr by (simp add: fs)
    moreover have "k \<noteq> c0"
    proof
      assume "k = c0"
      then have "x = r" using one x st zf(1) unfolding starsOneToOne_def fs by blast
      then show False using xr by simp
    qed
    ultimately show ?thesis by (simp add: cc')
  qed
  have P3: "\<exists>x<numRow s'. starredZeros s' ! x = Some k" if "k < numCol s'" "colCovered s' ! k" for k
    using C3[of k] that by (simp add: fs cc')
  have P4: "\<exists>x<numRow s'. starredZeros s' ! x = None" using C4 by (simp add: fs)
  have cov': "coverInv s'"
    unfolding coverInv_def using P1 P2 P3 P4 by blast
  obtain rank :: "nat \<Rightarrow> nat" where rank: "\<And>x y. x < numRow s \<Longrightarrow> y < numRow s \<Longrightarrow>
        rowCovered s ! x \<Longrightarrow> starredZeros s ! y = Some (primedZeros s ! x) \<Longrightarrow> rank y < rank x"
    using loop unfolding loopInv_def chainsEnd_def by blast
  define rank' where "rank' = (\<lambda>x. if x = r then Suc (\<Sum>i<numRow s. rank i) else rank x)"
  have le: "rank y \<le> (\<Sum>i<numRow s. rank i)" if "y < numRow s" for y
    using member_le_sum[of y "{..<numRow s}" rank] that by simp
  have R: "rank' y < rank' x"
    if x: "x < numRow s'" "y < numRow s'" "rowCovered s' ! x"
      "starredZeros s' ! y = Some (primedZeros s' ! x)" for x y
  proof (cases "x = r")
    case True
    then have "starredZeros s ! y = Some c" using x by (simp add: fs pz')
    then have "y \<noteq> r" using st cc0 by auto
    then show ?thesis using le[of y] x True by (simp add: rank'_def fs)
  next
    case False
    then have xc: "rowCovered s ! x" and yp: "starredZeros s ! y = Some (primedZeros s ! x)"
      using x by (simp_all add: fs rc' pz')
    have "\<not> colCovered s ! (primedZeros s ! x)" using C1[OF _ xc] x by (simp add: fs)
    then have "primedZeros s ! x \<noteq> c0" using c0cov by auto
    then have "y \<noteq> r" using yp st by auto
    then show ?thesis using rank[OF _ _ xc yp] x False by (simp add: rank'_def fs)
  qed
  have "chainsEnd s'" unfolding chainsEnd_def using R by blast
  then show "loopInv s'" using cov' by (simp add: loopInv_def)
qed

text \<open>The loop of \<open>iterate\<close> ends, and keeps the invariants.\<close>

lemma primeLoop_spec:
  assumes "coreInv cs0 s" and "loopInv s"
  shows "\<exists>res. primeLoop s = Some res \<and> primeResult cs0 s res"
  using assms
proof (induction "uncoveredRows s" arbitrary: s rule: less_induct)
  case less
  note core = less.prems(1) and loop = less.prems(2)
  show ?case
  proof (cases "findUncoveredZero s")
    case None
    then have "primeLoop s = Some (s, None)" by (subst primeLoop.simps) simp
    moreover have "primeResult cs0 s (s, None)"
      using core loop None by (simp add: primeResult_def)
    ultimately show ?thesis by blast
  next
    case (Some rc)
    obtain r c where rc: "rc = (r, c)" by (cases rc) auto
    note z = Some[unfolded rc]
    note zf = uncoveredZero_facts[OF core z]
    have wf: "wf s" using core by (simp add: coreInv_def)
    have lens: "length (primedZeros s) = numRow s" using wf by (simp add: wf_def)
    show ?thesis
    proof (cases "starredZeros s ! r")
      case None
      let ?s1 = "s\<lparr>primedZeros := (primedZeros s)[r := c]\<rparr>"
      have pl: "primeLoop s = Some (?s1, Some (r, c))"
        using z None by (subst primeLoop.simps) (simp add: Let_def)
      have ce: "cell ?s1 = cell s" by (rule cell_cong) simp_all
      have "primeResult cs0 s (?s1, Some (r, c))"
        using prime_inv[OF core loop zf(1,3), of c] zf None lens
        by (simp add: primeResult_def primeFrame_def uncoveredRows_def ce)
      then show ?thesis using pl by blast
    next
      case (Some c0)
      define s' where "s' = s\<lparr>primedZeros := (primedZeros s)[r := c],
                    rowCovered := (rowCovered s)[r := True],
                    colCovered := (colCovered s)[c0 := False]\<rparr>"
      note step = coverStep_inv[OF core loop z Some, folded s'_def]
      have pl: "primeLoop s = primeLoop s'"
        using z Some by (subst primeLoop.simps) (simp add: Let_def s'_def)
      from less.hyps[OF step(3) step(1) step(2)]
      obtain res where res: "primeLoop s' = Some res" "primeResult cs0 s' res" by blast
      obtain s1 x where sx: "res = (s1, x)" by (cases res) auto
      have "primeResult cs0 s res"
        using res(2) step(3,4) unfolding primeResult_def sx
        by (auto split: option.splits)
      then show ?thesis using pl res(1) by simp
    qed
  qed
qed

subsection \<open>The cost update keeps the invariants\<close>

lemma minus_plus_T: "minus_T (plus_T a x) x = a"
  by (cases a) auto

lemma updateCosts_effect:
  assumes wf: "wf s" and part: "rowPartition (workers s) (numRow s) (workerRows s)"
    and ci: "colInds s = filter (\<lambda>col. \<not> colCovered s ! col) [0..<numCol s]"
  shows "costFrame (updateCosts x s) = costFrame s"
    and "length (cost (updateCosts x s)) = length (cost s)"
    and "length (zeros (updateCosts x s)) = length (zeros s)"
    and "\<And>r c. r < numRow s \<Longrightarrow> c < numRow s \<Longrightarrow>
            cell (updateCosts x s) r c = updatedCell s x r c"
    and "\<And>r. r < numRow s \<Longrightarrow> zeros (updateCosts x s) ! r = updatedZeros s x r"
proof -
  have fl: "updateCosts x s = fold (updateCostsRow x) [0..<numRow s] s"
    by (rule updateCosts_flat[OF part])
  show "costFrame (updateCosts x s) = costFrame s" by (simp add: fl fold_updateCostsRow_frame)
  show "length (cost (updateCosts x s)) = length (cost s)"
    by (simp add: fl fold_updateCostsRow_lengths)
  show "length (zeros (updateCosts x s)) = length (zeros s)"
    by (simp add: fl fold_updateCostsRow_lengths)
  have n: "numCol s = numRow s" "length (cost s) = numRow s * numRow s"
    "length (zeros s) = numRow s" using wf by (simp_all add: wf_def)
  have cb: "\<forall>c\<in>set (colInds s). c < numRow s" and cd: "distinct (colInds s)"
    using n by (simp_all add: ci)
  have rb: "\<forall>row\<in>set [0..<numRow s]. row < numRow s" and rd: "distinct [0..<numRow s]" by simp_all
  note F = fold_updateCostsRow_cell_zeros[OF n(1,2,3) rb rd cb cd, of _ x, folded fl]
  show "\<And>r c. r < numRow s \<Longrightarrow> c < numRow s \<Longrightarrow>
            cell (updateCosts x s) r c = updatedCell s x r c"
    using F by simp
  show "\<And>r. r < numRow s \<Longrightarrow> zeros (updateCosts x s) ! r = updatedZeros s x r"
    using F by simp
qed

lemma updatedCell_cases:
  assumes "colInds s = filter (\<lambda>col. \<not> colCovered s ! col) [0..<numCol s]" and "c < numCol s"
  shows "updatedCell s x r c =
     (if rowCovered s ! r then (if colCovered s ! c then plus_T (cell s r c) x else cell s r c)
      else (if colCovered s ! c then cell s r c else minus_T (cell s r c) x))"
  using assms by (simp add: updatedCell_def minus_plus_T)

lemma update_inv:
  assumes core: "coreInv cs0 s" and loop: "loopInv s" and nz: "findUncoveredZero s = None"
    and ci: "colInds s = filter (\<lambda>col. \<not> colCovered s ! col) [0..<numCol s]"
    and part: "rowPartition (workers s) (numRow s) (workerRows s)"
    and mn: "isMinUncovered s (Fin x)"
  shows "coreInv cs0 (updateCosts x s)" and "loopInv (updateCosts x s)"
    and "findUncoveredZero (updateCosts x s) \<noteq> None"
    and "costFrame (updateCosts x s) = costFrame s"
proof -
  let ?s = "updateCosts x s"
  let ?n = "numRow s"
  have wf: "wf s" and ze: "zerosExact s" and one: "starsOneToOne s" and onz: "starsOnZeros s"
    and nn: "nonNegative s" and red: "reducedFrom cs0 s"
    using core by (simp_all add: coreInv_def)
  have n: "numCol s = ?n" using wf by (simp add: wf_def)
  note E = updateCosts_effect[OF wf part ci, where x = x]
  note fr = costFrame_fields[OF E(1)]
  show "costFrame ?s = costFrame s" by (rule E(1))
  have cov: "coverInv s" using loop by (simp add: loopInv_def)
  note C1 = cov[unfolded coverInv_def, THEN conjunct1, rule_format]
  note C2 = cov[unfolded coverInv_def, THEN conjunct2, THEN conjunct1, rule_format]
  have U: "cell ?s r c =
     (if rowCovered s ! r then (if colCovered s ! c then plus_T (cell s r c) x else cell s r c)
      else (if colCovered s ! c then cell s r c else minus_T (cell s r c) x))"
    if "r < ?n" "c < ?n" for r c
    using E(4)[OF that] updatedCell_cases[OF ci, where c = c and x = x and r = r] that n by simp
  have nozero: "cell s r c \<noteq> Fin 0"
    if "r < ?n" "c < ?n" "\<not> rowCovered s ! r" "\<not> colCovered s ! c" for r c
  proof
    assume "cell s r c = Fin 0"
    then have "c \<in> set (zeros s ! r)" using ze that n by (simp add: zerosExact_def)
    from findUncoveredZero_None[OF nz that(1,3) this] that(4) show False by simp
  qed
  obtain r0 c0 where m0: "r0 < ?n" "c0 < ?n" "\<not> rowCovered s ! r0" "\<not> colCovered s ! c0"
      "cell s r0 c0 = Fin x"
    using mn n by (auto simp: isMinUncovered_def)
  have "0 \<le> x" using nn m0 n by (auto simp: nonNegative_def)
  moreover have "x \<noteq> 0" using nozero[OF m0(1-4)] m0(5) by auto
  ultimately have xpos: "0 < x" by simp
  have lower: "x \<le> y"
    if "r < ?n" "c < ?n" "\<not> rowCovered s ! r" "\<not> colCovered s ! c" "cell s r c = Fin y" for r c y
  proof -
    have "\<forall>r<numRow s. \<forall>c<numCol s. \<not> rowCovered s ! r \<and> \<not> colCovered s ! c
         \<longrightarrow> \<not> ec_less (cell s r c) (Fin x)"
      using mn unfolding isMinUncovered_def by blast
    then have "\<not> ec_less (cell s r c) (Fin x)" using that(1-4) n by auto
    then show ?thesis using that(5) by simp
  qed
  have wf': "wf ?s" using wf fr E(2,3) by (simp add: wf_def)
  have nn': "nonNegative ?s"
    unfolding nonNegative_def fr
  proof (intro allI impI)
    fix r c y assume a: "r < ?n" "c < numCol s" "cell ?s r c = Fin y"
    then have c: "c < ?n" using n by simp
    obtain a0 where a0: "cell s r c = Fin a0" using a(3) U[OF a(1) c]
      by (cases "cell s r c") (auto split: if_splits)
    have p: "0 \<le> a0" using nn a a0 by (auto simp: nonNegative_def)
    show "0 \<le> y"
      using a(3) U[OF a(1) c] a0 p xpos lower[OF a(1) c _ _ a0]
      by (auto split: if_splits)
  qed
  have ze': "zerosExact ?s"
    unfolding zerosExact_def fr
  proof (intro allI impI)
    fix r assume r: "r < ?n"
    have z0: "set (zeros s ! r) = {c. c < ?n \<and> cell s r c = Fin 0}"
      using ze r n by (simp add: zerosExact_def)
    have inds: "set (colInds s) = {c. c < ?n \<and> \<not> colCovered s ! c}" using n by (auto simp: ci)
    have uc: "\<And>c. c < ?n \<Longrightarrow> updatedCell s x r c = cell ?s r c" using E(4)[OF r] by simp
    have "set (zeros ?s ! r) =
        (if rowCovered s ! r then {} else {c. c < ?n \<and> cell s r c = Fin 0}) \<union>
        {c. c < ?n \<and> \<not> colCovered s ! c \<and> cell ?s r c = Fin 0}"
      using uc by (auto simp: E(5)[OF r] updatedZeros_def z0 inds)
    also have "\<dots> = {c. c < ?n \<and> cell ?s r c = Fin 0}"
    proof (cases "rowCovered s ! r")
      case True
      have "\<not> colCovered s ! c" if c: "c < ?n" "cell ?s r c = Fin 0" for c
      proof
        assume cc: "colCovered s ! c"
        then obtain a0 where a0: "cell s r c = Fin a0" "a0 + x = 0"
          using U[OF r c(1)] c(2) True by (cases "cell s r c") auto
        have "0 \<le> a0" using nn r c a0 n by (auto simp: nonNegative_def)
        then show False using a0 xpos by simp
      qed
      then show ?thesis using True by auto
    next
      case False
      have "cell ?s r c = cell s r c" if "c < ?n" "colCovered s ! c" for c
        using U[OF r that(1)] that False by simp
      moreover have "cell s r c \<noteq> Fin 0" if "c < ?n" "\<not> colCovered s ! c" for c
        using nozero[OF r that(1) False that(2)] .
      ultimately show ?thesis using False by (auto, metis)
    qed
    finally show "set (zeros ?s ! r) = {c. c < numCol s \<and> cell ?s r c = Fin 0}" using n by simp
  qed
  have starcell: "cell ?s r c = cell s r c"
    if "r < ?n" "starredZeros s ! r = Some c" for r c
  proof -
    have c: "c < ?n" using onz that n by (auto simp: starsOnZeros_def)
    show ?thesis
    proof (cases "rowCovered s ! r")
      case True
      then have "\<not> colCovered s ! c" using C1[OF that(1) True] that(2) by auto
      then show ?thesis using U[OF that(1) c] True by simp
    next
      case False
      then have "colCovered s ! c" using C2[of r c] that by simp
      then show ?thesis using U[OF that(1) c] False by simp
    qed
  qed
  have onz': "starsOnZeros ?s"
    using onz starcell unfolding starsOnZeros_def fr by auto
  have one': "starsOneToOne ?s" using one unfolding starsOneToOne_def fr .
  have red': "reducedFrom cs0 ?s"
  proof -
    obtain u v where uv: "\<And>r c. r < ?n \<Longrightarrow> c < ?n \<Longrightarrow>
        cell s r c = minus_T (cs0 ! (r * numCol s + c)) (u r + v c)"
      using red n unfolding reducedFrom_def by auto
    define u' where "u' = (\<lambda>r. if rowCovered s ! r then u r - x else u r)"
    define v' where "v' = (\<lambda>c. if colCovered s ! c then v c else v c + x)"
    have "cell ?s r c = minus_T (cs0 ! (r * numCol s + c)) (u' r + v' c)"
      if "r < ?n" "c < ?n" for r c
      using U[OF that] uv[OF that]
      by (cases "cs0 ! (r * numCol s + c)") (auto simp: u'_def v'_def)
    then show ?thesis unfolding reducedFrom_def fr using n by auto
  qed
  show core': "coreInv cs0 ?s"
    using wf' ze' one' onz' nn' red' by (simp add: coreInv_def)
  have primecell: "cell ?s r (primedZeros s ! r) = cell s r (primedZeros s ! r)"
    if "r < ?n" "rowCovered s ! r" for r
    using C1[OF that] U[OF that(1), of "primedZeros s ! r"] that n by simp
  have "coverInv ?s"
    using cov primecell unfolding coverInv_def fr by auto
  moreover have "chainsEnd ?s" using loop unfolding loopInv_def chainsEnd_def fr by simp
  ultimately show "loopInv ?s" by (simp add: loopInv_def)
  show "findUncoveredZero ?s \<noteq> None"
  proof
    assume none: "findUncoveredZero ?s = None"
    have "cell ?s r0 c0 = Fin 0" using U[OF m0(1,2)] m0 by simp
    then have "c0 \<in> set (zeros ?s ! r0)" using ze' m0 n unfolding zerosExact_def fr by simp
    from findUncoveredZero_None[OF none _ _ this] m0 show False by (simp add: fr)
  qed
qed

subsection \<open>Counting stars\<close>

lemma stars_rows_to_cols:
  assumes one: "starsOneToOne s" and onz: "starsOnZeros s" and n: "numCol s = numRow s"
    and all: "\<forall>r<numRow s. starredZeros s ! r \<noteq> None"
  shows "\<forall>c<numCol s. \<exists>r<numRow s. starredZeros s ! r = Some c"
proof -
  let ?n = "numRow s"
  define f where "f = (\<lambda>r. the (starredZeros s ! r))"
  have fs: "starredZeros s ! r = Some (f r)" if "r < ?n" for r
    using all that by (auto simp: f_def)
  have inj: "inj_on f {..<?n}"
  proof (rule inj_onI)
    fix x y assume "x \<in> {..<?n}" "y \<in> {..<?n}" "f x = f y"
    then show "x = y" using one fs[of x] fs[of y] unfolding starsOneToOne_def by auto
  qed
  have sub: "f ` {..<?n} \<subseteq> {..<?n}"
    using onz fs n unfolding starsOnZeros_def by auto
  have "card (f ` {..<?n}) = ?n" using card_image[OF inj] by simp
  then have eq: "f ` {..<?n} = {..<?n}" using sub by (simp add: card_subset_eq)
  show ?thesis
  proof (intro allI impI)
    fix c assume "c < numCol s"
    then have "c \<in> f ` {..<?n}" using eq n by simp
    then obtain r where "r < ?n" "c = f r" by auto
    then show "\<exists>r<?n. starredZeros s ! r = Some c" using fs[of r] by auto
  qed
qed

lemma stars_cols_to_rows:
  assumes one: "starsOneToOne s" and onz: "starsOnZeros s" and n: "numCol s = numRow s"
    and all: "\<forall>c<numCol s. \<exists>r<numRow s. starredZeros s ! r = Some c"
  shows "\<forall>r<numRow s. starredZeros s ! r \<noteq> None"
proof -
  let ?n = "numRow s"
  define g where "g = (\<lambda>c. SOME r. r < ?n \<and> starredZeros s ! r = Some c)"
  have gs: "g c < ?n \<and> starredZeros s ! (g c) = Some c" if "c < ?n" for c
  proof -
    have "\<exists>r. r < ?n \<and> starredZeros s ! r = Some c" using all that n by auto
    then show ?thesis unfolding g_def
      by (rule someI_ex[where P = "\<lambda>r. r < numRow s \<and> starredZeros s ! r = Some c"])
  qed
  have inj: "inj_on g {..<?n}"
  proof (rule inj_onI)
    fix x y assume a: "x \<in> {..<?n}" "y \<in> {..<?n}" "g x = g y"
    have "Some x = starredZeros s ! (g x)" using gs[of x] a(1) by simp
    also have "\<dots> = starredZeros s ! (g y)" by (simp only: a(3))
    also have "\<dots> = Some y" using gs[of y] a(2) by simp
    finally show "x = y" by simp
  qed
  have sub: "g ` {..<?n} \<subseteq> {..<?n}"
  proof
    fix r assume "r \<in> g ` {..<?n}"
    then obtain c where "c < ?n" "r = g c" by auto
    then show "r \<in> {..<?n}" using gs[of c] by simp
  qed
  have "card (g ` {..<?n}) = ?n" using card_image[OF inj] by simp
  then have eq: "g ` {..<?n} = {..<?n}" using sub by (simp add: card_subset_eq)
  show ?thesis
  proof (intro allI impI)
    fix r assume "r < ?n"
    then have "r \<in> g ` {..<?n}" using eq by simp
    then obtain c where "c < ?n" "r = g c" by auto
    then show "starredZeros s ! r \<noteq> None" using gs[of c] by simp
  qed
qed

text \<open>Between two augmentations some uncovered column holds no star.\<close>

lemma free_column:
  assumes core: "coreInv cs0 s" and cov: "coverInv s"
  obtains c where "c < numCol s" and "\<not> colCovered s ! c"
    and "\<forall>r<numRow s. starredZeros s ! r \<noteq> Some c"
proof -
  have one: "starsOneToOne s" and onz: "starsOnZeros s" and n: "numCol s = numRow s"
    using core by (simp_all add: coreInv_def wf_def)
  have "\<not> (\<forall>c<numCol s. \<exists>r<numRow s. starredZeros s ! r = Some c)"
    using stars_cols_to_rows[OF one onz n] cov unfolding coverInv_def by blast
  then obtain c where c: "c < numCol s" "\<forall>r<numRow s. starredZeros s ! r \<noteq> Some c" by blast
  moreover have "\<not> colCovered s ! c" using cov c unfolding coverInv_def by blast
  ultimately show ?thesis using that by blast
qed

lemma loopInv_not_allCovered:
  assumes "coreInv cs0 s" and "loopInv s"
  shows "\<not> allCovered s"
proof -
  obtain c where c: "c < numCol s" "\<not> colCovered s ! c"
    using free_column[OF assms(1)] assms(2) unfolding loopInv_def by blast
  have "length (colCovered s) = numCol s" using assms(1) by (simp add: coreInv_def wf_def)
  then show ?thesis using c by (auto simp: allCovered_def list_all_length)
qed

subsection \<open>The exit of \<open>iterate\<close> without an uncovered zero\<close>

lemma scratchFrame_fields:
  assumes "scratchFrame s' = scratchFrame s"
  shows "numCol s' = numCol s" and "numRow s' = numRow s"
    and "colCovered s' = colCovered s" and "rowCovered s' = rowCovered s"
    and "cost s' = cost s" and "zeros s' = zeros s"
    and "primedZeros s' = primedZeros s" and "starredZeros s' = starredZeros s"
    and "rowSequence s' = rowSequence s" and "colSequence s' = colSequence s"
    and "workers s' = workers s"
proof -
  have f: "f (scratchFrame s') = f (scratchFrame s)" for f :: "hungarian \<Rightarrow> 'b"
    using assms by simp
  show "numCol s' = numCol s" using f[of numCol] by (simp add: scratchFrame_def)
  show "numRow s' = numRow s" using f[of numRow] by (simp add: scratchFrame_def)
  show "colCovered s' = colCovered s" using f[of colCovered] by (simp add: scratchFrame_def)
  show "rowCovered s' = rowCovered s" using f[of rowCovered] by (simp add: scratchFrame_def)
  show "cost s' = cost s" using f[of cost] by (simp add: scratchFrame_def)
  show "zeros s' = zeros s" using f[of zeros] by (simp add: scratchFrame_def)
  show "primedZeros s' = primedZeros s" using f[of primedZeros] by (simp add: scratchFrame_def)
  show "starredZeros s' = starredZeros s" using f[of starredZeros] by (simp add: scratchFrame_def)
  show "rowSequence s' = rowSequence s" using f[of rowSequence] by (simp add: scratchFrame_def)
  show "colSequence s' = colSequence s" using f[of colSequence] by (simp add: scratchFrame_def)
  show "workers s' = workers s" using f[of workers] by (simp add: scratchFrame_def)
qed

lemma rebalanceWorkers_frame: "\<exists>wr. rebalanceWorkers s = s\<lparr>workerRows := wr\<rparr>"
  by (auto simp: rebalanceWorkers_def Let_def split: prod.splits)

lemma isMinUncovered_cong:
  assumes "numRow s' = numRow s" and "numCol s' = numCol s" and "cost s' = cost s"
    and "rowCovered s' = rowCovered s" and "colCovered s' = colCovered s"
  shows "isMinUncovered s' h = isMinUncovered s h"
  using assms cell_cong[OF assms(2,3)] by (simp add: isMinUncovered_def)

text \<open>Lines 240--244: what the search for the minimum leaves behind.\<close>

lemma noZero_search:
  assumes wf: "wf s"
  obtains h sC where "findMinUncoveredCost (rebalanceWorkers (fillColInds s)) = (h, sC)"
    and "isMinUncovered s h" and "wf sC" and "scratchFrame sC = scratchFrame s"
    and "colInds sC = filter (\<lambda>col. \<not> colCovered s ! col) [0..<numCol s]"
    and "rowPartition (workers s) (numRow s) (workerRows sC)"
proof -
  define sA where "sA = fillColInds s"
  define sB where "sB = rebalanceWorkers sA"
  obtain wr where wr: "sB = sA\<lparr>workerRows := wr\<rparr>"
    using rebalanceWorkers_frame[of sA] by (auto simp: sB_def)
  have wfA: "wf sA" using wf by (simp add: sA_def fillColInds_def wf_def)
  have pB: "rowPartition (workers sA) (numRow sA) (workerRows sB)"
    unfolding sB_def using wfA by (intro rebalanceWorkers_rowPartition) (simp_all add: wf_def)
  have wfB: "wf sB" using wfA pB by (simp add: wr wf_def rowPartition_def)
  have pB': "rowPartition (workers sB) (numRow sB) (workerRows sB)" using pB by (simp add: wr)
  have ciB: "colInds sB = filter (\<lambda>col. \<not> colCovered sB ! col) [0..<numCol sB]"
    by (simp add: wr sA_def fillColInds_def)
  obtain h sC where res: "findMinUncoveredCost sB = (h, sC)" by (cases "findMinUncoveredCost sB")
  note M = findMinUncoveredCost_spec[OF wfB pB' ciB, unfolded res fst_conv snd_conv]
  note mf = minFrame_fields[OF M(1)]
  have 1: "findMinUncoveredCost (rebalanceWorkers (fillColInds s)) = (h, sC)"
    using res by (simp add: sB_def sA_def)
  have 2: "isMinUncovered s h"
    using M(3) isMinUncovered_cong[of sB s h] by (simp add: wr sA_def fillColInds_def)
  have 3: "wf sC" using wfB M(2) mf by (simp add: wf_def)
  have "scratchFrame sC = scratchFrame (minFrame sC)" by (simp add: scratchFrame_def minFrame_def)
  also have "\<dots> = scratchFrame (minFrame sB)" by (simp add: M(1))
  also have "\<dots> = scratchFrame s"
    by (simp add: scratchFrame_def minFrame_def wr sA_def fillColInds_def)
  finally have 4: "scratchFrame sC = scratchFrame s" .
  have 5: "colInds sC = filter (\<lambda>col. \<not> colCovered s ! col) [0..<numCol s]"
    using mf(9) ciB by (simp add: wr sA_def fillColInds_def)
  have 6: "rowPartition (workers s) (numRow s) (workerRows sC)"
    using pB mf(11) by (simp add: sA_def fillColInds_def)
  show ?thesis using that[OF 1 2 3 4 5 6] .
qed

lemma noZero_spec:
  assumes core: "coreInv cs0 s" and loop: "loopInv s" and nz: "findUncoveredZero s = None"
  shows "coreInv cs0 (noZero s)"
    and "numRow (noZero s) = numRow s" and "starredZeros (noZero s) = starredZeros s"
    and "rowCovered (noZero s) = rowCovered s" and "workers (noZero s) = workers s"
    and "(allCovered (noZero s) \<and> exhausted (noZero s)) \<or>
         (loopInv (noZero s) \<and> findUncoveredZero (noZero s) \<noteq> None)"
proof -
  have wf: "wf s" using core by (simp add: coreInv_def)
  obtain h sC where S: "findMinUncoveredCost (rebalanceWorkers (fillColInds s)) = (h, sC)"
    "isMinUncovered s h" "wf sC" "scratchFrame sC = scratchFrame s"
    "colInds sC = filter (\<lambda>col. \<not> colCovered s ! col) [0..<numCol s]"
    "rowPartition (workers s) (numRow s) (workerRows sC)"
    using noZero_search[OF wf] by blast
  note sf = scratchFrame_fields[OF S(4)]
  have ce: "cell sC = cell s" by (rule cell_cong) (simp_all add: sf)
  have coreC: "coreInv cs0 sC" by (rule coreInv_cong[OF core S(3)]) (simp_all add: sf)
  have loopC: "loopInv sC"
    using loop unfolding loopInv_def coverInv_def chainsEnd_def sf ce .
  have nzC: "findUncoveredZero sC = None" using findUncoveredZero_cong[of sC s] sf nz by simp
  have ciC: "colInds sC = filter (\<lambda>col. \<not> colCovered sC ! col) [0..<numCol sC]"
    using S(5) sf by simp
  have pC: "rowPartition (workers sC) (numRow sC) (workerRows sC)" using S(6) sf by simp
  have mC: "isMinUncovered sC h" using S(2) isMinUncovered_cong[of sC s h] sf by simp
  have main: "coreInv cs0 (noZero s) \<and> numRow (noZero s) = numRow s \<and>
      starredZeros (noZero s) = starredZeros s \<and> rowCovered (noZero s) = rowCovered s \<and>
      workers (noZero s) = workers s \<and>
      (allCovered (noZero s) \<and> exhausted (noZero s) \<or>
       loopInv (noZero s) \<and> findUncoveredZero (noZero s) \<noteq> None)"
  proof (cases h)
    case (Fin x)
    have nzs: "noZero s = updateCosts x sC" by (simp add: noZero_def S(1) Fin)
    note U = update_inv[OF coreC loopC nzC ciC pC mC[unfolded Fin]]
    note cf = costFrame_fields[OF U(4)]
    show ?thesis
      unfolding nzs using U cf sf by simp
  next
    case Inf
    define s' where "s' = sC\<lparr>colCovered := replicate (length (colCovered sC)) True\<rparr>"
    have nzs: "noZero s = s'" by (simp add: noZero_def S(1) Inf s'_def)
    have wf': "wf s'" using S(3) by (simp add: s'_def wf_def)
    have core': "coreInv cs0 s'" by (rule coreInv_cong[OF coreC wf']) (simp_all add: s'_def)
    have all: "allCovered s'" by (simp add: allCovered_def s'_def list_all_length)
    have cov: "coverInv s" using loop by (simp add: loopInv_def)
    have "cell s r c = Inf"
      if a: "r < numRow s" "c < numCol s" "starredZeros s ! r = None"
        "\<forall>r'<numRow s. starredZeros s ! r' \<noteq> Some c" for r c
    proof -
      have ur: "\<not> rowCovered s ! r" using cov a(1,3) unfolding coverInv_def by auto
      have uc: "\<not> colCovered s ! c" using cov a(2,4) unfolding coverInv_def by blast
      have "\<forall>r<numRow s. \<forall>c<numCol s. \<not> rowCovered s ! r \<and> \<not> colCovered s ! c
         \<longrightarrow> \<not> ec_less (cell s r c) Inf"
        using S(2) unfolding isMinUncovered_def Inf by blast
      then have "\<not> ec_less (cell s r c) Inf" using a(1,2) ur uc by blast
      then show ?thesis by (cases "cell s r c") auto
    qed
    then have ex: "exhausted s'"
      unfolding exhausted_def using sf ce by (simp add: s'_def cell_def)
    show ?thesis
      unfolding nzs using core' all ex sf by (simp add: s'_def)
  qed
  show "coreInv cs0 (noZero s)" "numRow (noZero s) = numRow s"
    "starredZeros (noZero s) = starredZeros s" "rowCovered (noZero s) = rowCovered s"
    "workers (noZero s) = workers s"
    "(allCovered (noZero s) \<and> exhausted (noZero s)) \<or>
         (loopInv (noZero s) \<and> findUncoveredZero (noZero s) \<noteq> None)"
    using main by blast+
qed

subsection \<open>The augmentation\<close>

lemma findStarredZeroInCol_Some:
  "findStarredZeroInCol s c = Some r \<Longrightarrow> r < numRow s \<and> starredZeros s ! r = Some c"
  by (auto simp: findStarredZeroInCol_def find_Some_iff)

lemma findStarredZeroInCol_None:
  "findStarredZeroInCol s c = None \<Longrightarrow> \<forall>r<numRow s. starredZeros s ! r \<noteq> Some c"
  by (auto simp: findStarredZeroInCol_def find_None_iff)

lemma seqFrame_fields:
  assumes "seqFrame s' = seqFrame s"
  shows "numCol s' = numCol s" and "numRow s' = numRow s"
    and "colCovered s' = colCovered s" and "rowCovered s' = rowCovered s"
    and "cost s' = cost s" and "zeros s' = zeros s"
    and "primedZeros s' = primedZeros s" and "starredZeros s' = starredZeros s"
    and "colInds s' = colInds s" and "workers s' = workers s"
    and "workerRows s' = workerRows s" and "workerCosts s' = workerCosts s"
proof -
  have f: "f (seqFrame s') = f (seqFrame s)" for f :: "hungarian \<Rightarrow> 'b"
    using assms by simp
  show "numCol s' = numCol s" using f[of numCol] by (simp add: seqFrame_def)
  show "numRow s' = numRow s" using f[of numRow] by (simp add: seqFrame_def)
  show "colCovered s' = colCovered s" using f[of colCovered] by (simp add: seqFrame_def)
  show "rowCovered s' = rowCovered s" using f[of rowCovered] by (simp add: seqFrame_def)
  show "cost s' = cost s" using f[of cost] by (simp add: seqFrame_def)
  show "zeros s' = zeros s" using f[of zeros] by (simp add: seqFrame_def)
  show "primedZeros s' = primedZeros s" using f[of primedZeros] by (simp add: seqFrame_def)
  show "starredZeros s' = starredZeros s" using f[of starredZeros] by (simp add: seqFrame_def)
  show "colInds s' = colInds s" using f[of colInds] by (simp add: seqFrame_def)
  show "workers s' = workers s" using f[of workers] by (simp add: seqFrame_def)
  show "workerRows s' = workerRows s" using f[of workerRows] by (simp add: seqFrame_def)
  show "workerCosts s' = workerCosts s" using f[of workerCosts] by (simp add: seqFrame_def)
qed

text \<open>
  The loop that follows the chain ends: by the ranking of the rows, each turn moves to a
  row of lower rank.
\<close>

lemma followChain_spec:
  fixes rank :: "nat \<Rightarrow> nat"
  assumes cov: "coverInv s"
    and rank: "\<forall>r<numRow s. \<forall>r'<numRow s.
        rowCovered s ! r \<and> starredZeros s ! r' = Some (primedZeros s ! r) \<longrightarrow> rank r' < rank r"
    and fr: "seqFrame t = seqFrame s" and c: "\<not> colCovered s ! c"
  shows "\<exists>rs cs. followChain t c =
            Some (t\<lparr>rowSequence := rowSequence t @ rs, colSequence := colSequence t @ cs\<rparr>) \<and>
          chain s c rs cs"
  using fr c
proof (induction "case findStarredZeroInCol s c of None \<Rightarrow> 0 | Some r \<Rightarrow> Suc (rank r)"
    arbitrary: c t rule: less_induct)
  case less
  note sf = seqFrame_fields[OF less.prems(1)]
  have fz: "findStarredZeroInCol t c = findStarredZeroInCol s c"
    by (simp add: findStarredZeroInCol_def sf)
  show ?case
  proof (cases "findStarredZeroInCol s c")
    case None
    have "followChain t c = Some t" using None fz by (subst followChain.simps) simp
    moreover have "chain s c [] []"
      using findStarredZeroInCol_None[OF None] by (rule chain_end)
    ultimately show ?thesis by (intro exI[of _ "[]"]) simp
  next
    case (Some r)
    note rf = findStarredZeroInCol_Some[OF Some]
    define p where "p = primedZeros s ! r"
    define t' where "t' = t\<lparr>rowSequence := rowSequence t @ [r], colSequence := colSequence t @ [p]\<rparr>"
    have rcov: "rowCovered s ! r"
      using cov rf less.prems(2) unfolding coverInv_def by blast
    have pun: "\<not> colCovered s ! p" using cov rf rcov unfolding coverInv_def p_def by blast
    have fr': "seqFrame t' = seqFrame s" using less.prems(1) by (simp add: t'_def seqFrame_def)
    have fc: "followChain t c = followChain t' p"
      using Some fz by (subst followChain.simps) (simp add: t'_def p_def sf)
    have dec: "(case findStarredZeroInCol s p of None \<Rightarrow> 0 | Some r \<Rightarrow> Suc (rank r))
        < (case findStarredZeroInCol s c of None \<Rightarrow> 0 | Some r \<Rightarrow> Suc (rank r))"
    proof (cases "findStarredZeroInCol s p")
      case None
      then show ?thesis using Some by simp
    next
      case (Some r2)
      note r2 = findStarredZeroInCol_Some[OF Some]
      have "rank r2 < rank r" using rank rf r2 rcov unfolding p_def by blast
      then show ?thesis using Some \<open>findStarredZeroInCol s c = Some r\<close> by simp
    qed
    from less.hyps[OF dec fr' pun]
    obtain rs cs where ih: "followChain t' p =
        Some (t'\<lparr>rowSequence := rowSequence t' @ rs, colSequence := colSequence t' @ cs\<rparr>)"
        "chain s p rs cs" by blast
    have "followChain t c =
        Some (t\<lparr>rowSequence := rowSequence t @ (r # rs), colSequence := colSequence t @ (p # cs)\<rparr>)"
      using fc ih(1) by (simp add: t'_def)
    moreover have "chain s c (r # rs) (p # cs)"
      unfolding p_def using rf ih(2)[unfolded p_def] by (intro chain_step) simp_all
    ultimately show ?thesis by blast
  qed
qed

lemma fold_starUpd_swap:
  "r \<notin> set rs \<Longrightarrow>
   fold starUpd (zip rs cs) (st[r := v]) = (fold starUpd (zip rs cs) st)[r := v]"
proof (induction rs arbitrary: cs st)
  case Nil
  then show ?case by simp
next
  case (Cons a rs)
  show ?case
  proof (cases cs)
    case Nil
    then show ?thesis by simp
  next
    case (Cons k cs')
    have "st[r := v, a := Some k] = st[a := Some k, r := v]"
      using Cons.prems by (simp add: list_update_swap)
    then show ?thesis using Cons.IH[of cs' "st[a := Some k]"] Cons.prems Cons
      by (simp add: starUpd_def)
  qed
qed

lemma length_fold_starUpd: "length (fold starUpd ps st) = length st"
  by (induction ps arbitrary: st) (auto simp: starUpd_def)

lemma starSequence_zip:
  assumes "length (rowSequence s) = length (colSequence s)"
  shows "starredZeros (starSequence s) =
           fold starUpd (zip (rowSequence s) (colSequence s)) (starredZeros s)"
proof -
  have z: "zip (rowSequence s) (colSequence s) =
      map (\<lambda>i. (rowSequence s ! i, colSequence s ! i)) [0..<length (colSequence s)]"
    using assms by (intro nth_equalityI) simp_all
  show ?thesis
    by (simp add: starSequence_def z fold_map comp_def starUpd_def)
qed

lemma chain_apply:
  fixes rank :: "nat \<Rightarrow> nat"
  assumes wf: "wf s" and one: "starsOneToOne s" and onz: "starsOnZeros s" and cov: "coverInv s"
    and rank: "\<forall>r<numRow s. \<forall>r'<numRow s.
        rowCovered s ! r \<and> starredZeros s ! r' = Some (primedZeros s ! r) \<longrightarrow> rank r' < rank r"
    and ch: "chain s c rs cs" and c: "\<not> colCovered s ! c"
  shows "chainApplied s rank c rs (fold starUpd (zip rs cs) (starredZeros s))"
  using ch c
proof (induction rule: chain.induct)
  case (chain_end c)
  have "length (starredZeros s) = numRow s" using wf by (simp add: wf_def)
  then show ?case
    using chain_end one onz unfolding chainApplied_def starsOneToOne_def starsOnZeros_def
    by auto
next
  case (chain_step r c rs cs)
  let ?n = "numRow s"
  let ?st = "starredZeros s"
  define p where "p = primedZeros s ! r"
  define T where "T = fold starUpd (zip rs cs) ?st"
  have rcov: "rowCovered s ! r"
    using cov chain_step.hyps(1,2) chain_step.prems unfolding coverInv_def by blast
  have pf: "p < numCol s" "\<not> colCovered s ! p" "cell s r p = Fin 0"
    using cov chain_step.hyps(1) rcov unfolding coverInv_def p_def by blast+
  have IH: "chainApplied s rank p rs T"
    using chain_step.IH pf(2) unfolding p_def T_def by simp
  note I = IH[unfolded chainApplied_def]
  have len: "length T = ?n" using I by blast
  have oneT: "\<And>x y k. x < ?n \<Longrightarrow> y < ?n \<Longrightarrow> T ! x = Some k \<Longrightarrow> T ! y = Some k \<Longrightarrow> x = y"
    using I by blast
  have freeT: "\<And>x. x < ?n \<Longrightarrow> T ! x \<noteq> Some p" using I by blast
  have sameT: "\<And>x. x < ?n \<Longrightarrow> x \<notin> set rs \<Longrightarrow> T ! x = ?st ! x" using I by blast
  have noneT: "\<And>x. x < ?n \<Longrightarrow> (T ! x = None) = (?st ! x = None)" using I by blast
  have zeroT: "\<And>x k. x < ?n \<Longrightarrow> T ! x = Some k \<Longrightarrow> k < numCol s \<and> cell s x k = Fin 0"
    using I by blast
  have rowsT: "\<And>x. x \<in> set rs \<Longrightarrow> x < ?n \<and> ?st ! x \<noteq> None \<and>
        (\<exists>r0<?n. ?st ! r0 = Some p \<and> rank x \<le> rank r0)" using I by blast
  have below: "rank x < rank r" if xin: "x \<in> set rs" for x
  proof -
    obtain r0 where r0: "r0 < ?n" "?st ! r0 = Some p" "rank x \<le> rank r0"
      using rowsT[OF xin] by blast
    have "rank r0 < rank r" using rank chain_step.hyps(1) r0(1,2) rcov unfolding p_def by blast
    then show ?thesis using r0(3) by simp
  qed
  have rnot: "r \<notin> set rs" using below by auto
  have pc: "p \<noteq> c"
  proof
    assume "p = c"
    then have "?st ! r = Some (primedZeros s ! r)" using chain_step.hyps(2) by (simp add: p_def)
    then have "rank r < rank r" using rank chain_step.hyps(1) rcov by blast
    then show False by simp
  qed
  have Tr: "T ! r = Some c" using sameT[OF chain_step.hyps(1) rnot] chain_step.hyps(2) by simp
  have res: "fold starUpd (zip (r # rs) (primedZeros s ! r # cs)) ?st = T[r := Some p]"
    using fold_starUpd_swap[OF rnot, of cs ?st "Some p"] by (simp add: starUpd_def T_def p_def)
  have nth: "T[r := Some p] ! x = (if x = r then Some p else T ! x)" if "x < ?n" for x
    using that len by (simp add: nth_list_update)
  have 1: "length (T[r := Some p]) = ?n" using len by simp
  have 2: "x = y" if "x < ?n" "y < ?n" "T[r := Some p] ! x = Some k" "T[r := Some p] ! y = Some k"
    for x y k
    using that oneT[of x y k] freeT[of x] freeT[of y] by (auto simp: nth split: if_splits)
  have 3: "T[r := Some p] ! x \<noteq> Some c" if "x < ?n" for x
    using that pc oneT[OF that chain_step.hyps(1) _ Tr] by (auto simp: nth)
  have 4: "T[r := Some p] ! x = ?st ! x" if "x < ?n" "x \<notin> set (r # rs)" for x
    using that sameT[of x] by (simp add: nth)
  have 5: "(T[r := Some p] ! x = None) = (?st ! x = None)" if "x < ?n" for x
    using that noneT[of x] chain_step.hyps(2) by (simp add: nth)
  have 6: "k < numCol s \<and> cell s x k = Fin 0" if "x < ?n" "T[r := Some p] ! x = Some k" for x k
    using that zeroT[of x k] pf by (auto simp: nth split: if_splits)
  have 7: "x < ?n \<and> ?st ! x \<noteq> None \<and> (\<exists>r0<?n. ?st ! r0 = Some c \<and> rank x \<le> rank r0)"
    if "x \<in> set (r # rs)" for x
  proof (cases "x = r")
    case True
    then show ?thesis using chain_step.hyps(1,2) by auto
  next
    case False
    then have x: "x \<in> set rs" using that by simp
    have "rank x \<le> rank r" using below[OF x] by simp
    then show ?thesis using rowsT[OF x] chain_step.hyps(1,2) by blast
  qed
  show ?case
    unfolding res chainApplied_def using 1 2 3 4 5 6 7 by blast
qed

lemma chain_length: "chain s c rs cs \<Longrightarrow> length rs = length cs"
  by (induction rule: chain.induct) simp_all

lemma cover_fold_length:
  "length (fold (\<lambda>r cc. case st ! r of None \<Rightarrow> cc | Some c \<Rightarrow> cc[c := True]) rows cc0) = length cc0"
  by (induction rows arbitrary: cc0) (auto split: option.splits)

lemma cover_fold_nth:
  assumes "k < length cc0"
  shows "fold (\<lambda>r cc. case st ! r of None \<Rightarrow> cc | Some c \<Rightarrow> cc[c := True]) [0..<n] cc0 ! k =
           (cc0 ! k \<or> (\<exists>r<n. st ! r = Some k))"
proof (induction n)
  case 0
  then show ?case by simp
next
  case (Suc n)
  define cc where
    "cc = fold (\<lambda>r cc. case st ! r of None \<Rightarrow> cc | Some c \<Rightarrow> cc[c := True]) [0..<n] cc0"
  have len: "k < length cc" using assms by (simp add: cc_def cover_fold_length)
  have IH: "cc ! k = (cc0 ! k \<or> (\<exists>r<n. st ! r = Some k))" using Suc by (simp add: cc_def)
  have step: "fold (\<lambda>r cc. case st ! r of None \<Rightarrow> cc | Some c \<Rightarrow> cc[c := True]) [0..<Suc n] cc0
      = (case st ! n of None \<Rightarrow> cc | Some c \<Rightarrow> cc[c := True])"
    by (simp add: cc_def split: option.splits)
  have ex: "(\<exists>r<Suc n. st ! r = Some k) = ((\<exists>r<n. st ! r = Some k) \<or> st ! n = Some k)"
    by (auto simp: less_Suc_eq)
  show ?case
  proof (cases "st ! n")
    case None
    then show ?thesis unfolding step ex using IH by simp
  next
    case (Some c)
    have "cc[c := True] ! k = (k = c \<or> cc ! k)" using len by (cases "k = c") simp_all
    then show ?thesis unfolding step ex using IH Some by auto
  qed
qed

lemma recover_fields:
  "numRow (recover s) = numRow s" "numCol (recover s) = numCol s" "cost (recover s) = cost s"
  "zeros (recover s) = zeros s" "starredZeros (recover s) = starredZeros s"
  "primedZeros (recover s) = primedZeros s" "workers (recover s) = workers s"
  "workerRows (recover s) = workerRows s" "workerCosts (recover s) = workerCosts s"
  "rowCovered (recover s) = replicate (length (rowCovered s)) False"
  "length (colCovered (recover s)) = length (colCovered s)"
  by (simp_all add: recover_def Let_def cover_fold_length)

lemma recover_colCovered:
  assumes "k < length (colCovered s)"
  shows "colCovered (recover s) ! k = (\<exists>r<numRow s. starredZeros s ! r = Some k)"
  using cover_fold_nth[of k "replicate (length (colCovered s)) False" "starredZeros s" "numRow s"]
    assms by (simp add: recover_def Let_def)

text \<open>
  A state with no row covered and exactly the starred columns covered satisfies the
  invariant of the loop of \<open>compute\<close>.
\<close>

lemma outerInv_recovered:
  assumes core: "coreInv cs0 s" and rows: "\<forall>r<numRow s. \<not> rowCovered s ! r"
    and cols: "\<forall>k<numCol s. colCovered s ! k = (\<exists>r<numRow s. starredZeros s ! r = Some k)"
  shows "outerInv cs0 s"
proof (cases "allCovered s")
  case True
  have "length (colCovered s) = numCol s" using core by (simp add: coreInv_def wf_def)
  then have "\<forall>k<numCol s. colCovered s ! k" using True by (simp add: allCovered_def list_all_length)
  then have "exhausted s" using cols unfolding exhausted_def by blast
  then show ?thesis using core True by (simp add: outerInv_def)
next
  case False
  have one: "starsOneToOne s" and onz: "starsOnZeros s" and n: "numCol s = numRow s"
    and len: "length (colCovered s) = numCol s"
    using core by (simp_all add: coreInv_def wf_def)
  obtain k where k: "k < numCol s" "\<not> colCovered s ! k"
    using False len by (auto simp: allCovered_def list_all_length)
  have nall: "\<not> (\<forall>c<numCol s. \<exists>r<numRow s. starredZeros s ! r = Some c)" using k cols by blast
  have c4: "\<exists>r<numRow s. starredZeros s ! r = None"
  proof (rule ccontr)
    assume "\<not> (\<exists>r<numRow s. starredZeros s ! r = None)"
    then have "\<forall>r<numRow s. starredZeros s ! r \<noteq> None" by simp
    from stars_rows_to_cols[OF one onz n this] nall show False by simp
  qed
  have c2: "\<forall>r<numRow s. \<forall>c. starredZeros s ! r = Some c \<and> \<not> rowCovered s ! r \<longrightarrow> colCovered s ! c"
    using cols onz unfolding starsOnZeros_def by blast
  have "coverInv s" unfolding coverInv_def using rows c2 cols c4 by blast
  moreover have "chainsEnd s" unfolding chainsEnd_def using rows by blast
  ultimately show ?thesis using core False by (simp add: outerInv_def loopInv_def)
qed

lemma augment_spec:
  assumes core: "coreInv cs0 s" and loop: "loopInv s"
    and r: "r < numRow s" "\<not> rowCovered s ! r" "starredZeros s ! r = None"
    and c: "c < numCol s" "\<not> colCovered s ! c" and z: "cell s r c = Fin 0"
  shows "\<exists>s'. augment r c s = Some s' \<and> outerInv cs0 s' \<and> starCount s' = starCount s + 1 \<and>
           numRow s' = numRow s \<and> workers s' = workers s"
proof -
  let ?n = "numRow s"
  let ?st = "starredZeros s"
  have wf: "wf s" and ze: "zerosExact s" and one: "starsOneToOne s" and onz: "starsOnZeros s"
    and nn: "nonNegative s" and red: "reducedFrom cs0 s"
    using core by (simp_all add: coreInv_def)
  have cov: "coverInv s" using loop by (simp add: loopInv_def)
  obtain rank :: "nat \<Rightarrow> nat" where rank: "\<forall>r<numRow s. \<forall>r'<numRow s.
        rowCovered s ! r \<and> starredZeros s ! r' = Some (primedZeros s ! r) \<longrightarrow> rank r' < rank r"
    using loop unfolding loopInv_def chainsEnd_def by blast
  define t0 where "t0 = s\<lparr>rowSequence := [r], colSequence := [c]\<rparr>"
  have fr0: "seqFrame t0 = seqFrame s" by (simp add: t0_def seqFrame_def)
  obtain rs cs where fc: "followChain t0 c =
      Some (t0\<lparr>rowSequence := rowSequence t0 @ rs, colSequence := colSequence t0 @ cs\<rparr>)"
    and ch: "chain s c rs cs"
    using followChain_spec[OF cov rank fr0 c(2)] by blast
  define T where "T = fold starUpd (zip rs cs) ?st"
  have CA: "chainApplied s rank c rs T"
    unfolding T_def by (rule chain_apply[OF wf one onz cov rank ch c(2)])
  note I = CA[unfolded chainApplied_def]
  have len: "length T = ?n" using I by blast
  have oneT: "\<And>x y k. x < ?n \<Longrightarrow> y < ?n \<Longrightarrow> T ! x = Some k \<Longrightarrow> T ! y = Some k \<Longrightarrow> x = y"
    using I by blast
  have freeT: "\<And>x. x < ?n \<Longrightarrow> T ! x \<noteq> Some c" using I by blast
  have noneT: "\<And>x. x < ?n \<Longrightarrow> (T ! x = None) = (?st ! x = None)" using I by blast
  have zeroT: "\<And>x k. x < ?n \<Longrightarrow> T ! x = Some k \<Longrightarrow> k < numCol s \<and> cell s x k = Fin 0"
    using I by blast
  have rowsT: "\<And>x. x \<in> set rs \<Longrightarrow> ?st ! x \<noteq> None" using I by blast
  have rnot: "r \<notin> set rs" using rowsT[of r] r(3) by auto
  define t2 where "t2 = t0\<lparr>rowSequence := rowSequence t0 @ rs, colSequence := colSequence t0 @ cs\<rparr>"
  have seq: "rowSequence t2 = r # rs" "colSequence t2 = c # cs" "starredZeros t2 = ?st"
    by (simp_all add: t2_def t0_def)
  have "starredZeros (starSequence t2) = fold starUpd (zip (r # rs) (c # cs)) ?st"
    using starSequence_zip[of t2] chain_length[OF ch] by (simp add: seq)
  also have "\<dots> = T[r := Some c]"
    using fold_starUpd_swap[OF rnot, of cs ?st "Some c"] by (simp add: starUpd_def T_def)
  finally have st3: "starredZeros (starSequence t2) = T[r := Some c]" .
  define s' where "s' = recover (starSequence t2)"
  have aug: "augment r c s = Some s'"
    by (simp add: augment_def t0_def[symmetric] fc t2_def[symmetric] s'_def)
  have f3: "numRow (starSequence t2) = ?n" "numCol (starSequence t2) = numCol s"
    "cost (starSequence t2) = cost s" "zeros (starSequence t2) = zeros s"
    "length (rowCovered (starSequence t2)) = length (rowCovered s)"
    "length (colCovered (starSequence t2)) = length (colCovered s)"
    "primedZeros (starSequence t2) = primedZeros s" "workers (starSequence t2) = workers s"
    "workerRows (starSequence t2) = workerRows s" "workerCosts (starSequence t2) = workerCosts s"
    by (simp_all add: starSequence_def t2_def t0_def)
  note rf = recover_fields[of "starSequence t2", folded s'_def, unfolded f3 st3]
  have nth: "T[r := Some c] ! x = (if x = r then Some c else T ! x)" if "x < ?n" for x
    using that len by (simp add: nth_list_update)
  have wf': "wf s'" using wf len unfolding wf_def rf by simp
  have ce: "cell s' = cell s" by (rule cell_cong) (simp_all add: rf)
  have ze': "zerosExact s'" using ze unfolding zerosExact_def rf ce .
  have nn': "nonNegative s'" using nn unfolding nonNegative_def rf ce .
  have red': "reducedFrom cs0 s'" using red unfolding reducedFrom_def rf ce .
  have one': "starsOneToOne s'"
    unfolding starsOneToOne_def rf
  proof (intro allI impI)
    fix x y k assume a: "x < ?n" "y < ?n" "T[r := Some c] ! x = Some k \<and> T[r := Some c] ! y = Some k"
    show "x = y" using a oneT[of x y k] freeT[of x] freeT[of y] by (auto simp: nth split: if_splits)
  qed
  have onz': "starsOnZeros s'"
    unfolding starsOnZeros_def rf ce
  proof (intro allI impI)
    fix x k assume a: "x < ?n" "T[r := Some c] ! x = Some k"
    show "k < numCol s \<and> cell s x k = Fin 0"
      using a zeroT[of x k] c(1) z by (auto simp: nth split: if_splits)
  qed
  have core': "coreInv cs0 s'" using wf' ze' one' onz' nn' red' by (simp add: coreInv_def)
  have lens: "length (rowCovered s) = ?n" "length (colCovered s) = ?n" "numCol s = ?n"
    using wf by (simp_all add: wf_def)
  have rows': "\<forall>x<numRow s'. \<not> rowCovered s' ! x" using lens by (simp add: rf)
  have cols': "\<forall>k<numCol s'. colCovered s' ! k = (\<exists>x<numRow s'. starredZeros s' ! x = Some k)"
    using recover_colCovered[of _ "starSequence t2", folded s'_def] lens
    by (simp add: rf f3 st3)
  have outer: "outerInv cs0 s'" by (rule outerInv_recovered[OF core' rows' cols'])
  have "(T[r := Some c] ! x \<noteq> None) = (x = r \<or> ?st ! x \<noteq> None)" if "x < ?n" for x
    using noneT[OF that] by (cases "T ! x"; cases "?st ! x") (simp_all add: nth[OF that])
  then have "{x. x < ?n \<and> T[r := Some c] ! x \<noteq> None} = insert r {x. x < ?n \<and> ?st ! x \<noteq> None}"
    using r(1) by blast
  moreover have "r \<notin> {x. x < ?n \<and> ?st ! x \<noteq> None}" using r(3) by simp
  moreover have "finite {x. x < ?n \<and> ?st ! x \<noteq> None}" by simp
  ultimately have cnt: "starCount s' = starCount s + 1"
    unfolding starCount_def rf by simp
  show ?thesis using aug outer cnt rf by simp
qed

subsection \<open>\<open>iterate\<close> and the loop of \<open>compute\<close>\<close>

lemma starCount_le: "starCount s \<le> numRow s"
proof -
  have "{r. r < numRow s \<and> starredZeros s ! r \<noteq> None} \<subseteq> {..<numRow s}" by auto
  then have "card {r. r < numRow s \<and> starredZeros s ! r \<noteq> None} \<le> card {..<numRow s}"
    by (intro card_mono) simp_all
  then show ?thesis by (simp add: starCount_def)
qed

lemma iterate_spec:
  assumes core: "coreInv cs0 s" and loop: "loopInv s"
  shows "\<exists>s'. iterate s = Some s' \<and> outerInv cs0 s' \<and> numRow s' = numRow s \<and>
           workers s' = workers s \<and>
           (if augmenting s then starCount s' = starCount s + 1
            else starredZeros s' = starredZeros s \<and>
                 (allCovered s' \<or> uncoveredRows s' < uncoveredRows s \<or>
                  (uncoveredRows s' = uncoveredRows s \<and> zeroPending s' < zeroPending s)))"
proof -
  obtain res where pl: "primeLoop s = Some res" and pr: "primeResult cs0 s res"
    using primeLoop_spec[OF core loop] by blast
  obtain s1 x where res: "res = (s1, x)" by (cases res) auto
  note P = pr[unfolded primeResult_def res, simplified]
  have core1: "coreInv cs0 s1" and loop1: "loopInv s1" and fr: "primeFrame s1 = primeFrame s"
    and ur: "uncoveredRows s1 \<le> uncoveredRows s"
    using P by simp_all
  note pf = primeFrame_fields[OF fr]
  have sc: "starCount s1 = starCount s" by (simp add: starCount_def pf)
  show ?thesis
  proof (cases x)
    case None
    have it: "iterate s = Some (noZero s1)" by (simp add: iterate_def pl res None)
    have na: "\<not> augmenting s" by (simp add: augmenting_def pl res None)
    have nz: "findUncoveredZero s1 = None" and same: "uncoveredRows s1 = uncoveredRows s \<longrightarrow> s1 = s"
      using P None by simp_all
    note N = noZero_spec[OF core1 loop1 nz]
    have outer: "outerInv cs0 (noZero s1)"
      using N(1,6) loopInv_not_allCovered[OF N(1)] by (auto simp: outerInv_def)
    have ur': "uncoveredRows (noZero s1) = uncoveredRows s1" by (simp add: uncoveredRows_def N(4))
    have prog: "allCovered (noZero s1) \<or> uncoveredRows (noZero s1) < uncoveredRows s \<or>
        (uncoveredRows (noZero s1) = uncoveredRows s \<and> zeroPending (noZero s1) < zeroPending s)"
    proof (cases "allCovered (noZero s1)")
      case True
      then show ?thesis by simp
    next
      case False
      then have z': "findUncoveredZero (noZero s1) \<noteq> None" using N(6) by blast
      show ?thesis
      proof (cases "uncoveredRows s1 = uncoveredRows s")
        case True
        then have "s1 = s" using same by simp
        then have "zeroPending (noZero s1) < zeroPending s"
          using nz z' by (auto simp: zeroPending_def)
        then show ?thesis using ur' True by simp
      next
        case False
        then show ?thesis using ur ur' by simp
      qed
    qed
    show ?thesis using it outer N(2,3,5) pf na prog by simp
  next
    case (Some rc)
    obtain r c where rc: "rc = (r, c)" by (cases rc) auto
    have it: "iterate s = augment r c s1" by (simp add: iterate_def pl res Some rc)
    have au: "augmenting s" by (simp add: augmenting_def pl res Some)
    have F: "r < numRow s1" "c < numCol s1" "\<not> rowCovered s1 ! r" "\<not> colCovered s1 ! c"
      "cell s1 r c = Fin 0" "starredZeros s1 ! r = None"
      using P Some rc by simp_all
    from augment_spec[OF core1 loop1 F(1,3,6,2,4,5)]
    obtain s' where "augment r c s1 = Some s'" "outerInv cs0 s'" "starCount s' = starCount s1 + 1"
      "numRow s' = numRow s1" "workers s' = workers s1" by blast
    then show ?thesis using it au sc pf by simp
  qed
qed

text \<open>The loop of \<open>compute\<close> ends, in a state with every column covered.\<close>

lemma assignLoop_spec:
  assumes "outerInv cs0 s"
  shows "\<exists>s'. assignLoop s = Some s' \<and> outerInv cs0 s' \<and> allCovered s' \<and>
           numRow s' = numRow s \<and> workers s' = workers s"
  using assms
proof (induction s rule: wf_induct_rule[OF wf_measures[of "[missingStars, uncoveredRows, zeroPending]"]])
  case (1 s)
  show ?case
  proof (cases "allCovered s")
    case True
    then have "assignLoop s = Some s" by (subst assignLoop.simps) (simp add: allCovered_def)
    then show ?thesis using True "1.prems" by simp
  next
    case False
    then have core: "coreInv cs0 s" and loop: "loopInv s"
      using "1.prems" by (simp_all add: outerInv_def)
    obtain s1 where it: "iterate s = Some s1" and outer1: "outerInv cs0 s1"
      and n1: "numRow s1 = numRow s" and w1: "workers s1 = workers s"
      and prog: "if augmenting s then starCount s1 = starCount s + 1
            else starredZeros s1 = starredZeros s \<and>
                 (allCovered s1 \<or> uncoveredRows s1 < uncoveredRows s \<or>
                  (uncoveredRows s1 = uncoveredRows s \<and> zeroPending s1 < zeroPending s))"
      using iterate_spec[OF core loop] by blast
    have unf: "assignLoop s = assignLoop s1"
      using False it by (subst assignLoop.simps) (simp add: allCovered_def)
    show ?thesis
    proof (cases "allCovered s1")
      case True
      then have "assignLoop s1 = Some s1" by (subst assignLoop.simps) (simp add: allCovered_def)
      then show ?thesis using unf True outer1 n1 w1 by simp
    next
      case nc: False
      have "(s1, s) \<in> measures [missingStars, uncoveredRows, zeroPending]"
      proof (cases "augmenting s")
        case True
        then have "starCount s1 = starCount s + 1" using prog by simp
        then have "missingStars s1 < missingStars s"
          using starCount_le[of s1] n1 by (simp add: missingStars_def)
        then show ?thesis by simp
      next
        case False
        then have st: "starredZeros s1 = starredZeros s"
          and pr: "uncoveredRows s1 < uncoveredRows s \<or>
                  (uncoveredRows s1 = uncoveredRows s \<and> zeroPending s1 < zeroPending s)"
          using prog nc by auto
        have "missingStars s1 = missingStars s" by (simp add: missingStars_def starCount_def st n1)
        then show ?thesis using pr by auto
      qed
      from "1.IH"[OF this outer1]
      show ?thesis using unf n1 w1 by auto
    qed
  qed
qed

subsection \<open>The initial reduction\<close>

lemma minus_T_zero: "minus_T a 0 = a"
  by (cases a) auto

lemma minus_T_minus_T: "minus_T (minus_T a x) y = minus_T a (x + y)"
  by (cases a) auto

lemma std_min_le: "\<not> ec_less a (std_min a b)" "\<not> ec_less b (std_min a b)"
  by (auto simp: std_min_def ec_less_irrefl ec_less_asym)

lemma reduceRow_inv:
  assumes inv: "reduceInv n cs0 k st" and k: "k < n" and l0: "length cs0 = n * n"
  shows "reduceInv n cs0 (Suc k) (reduceRow n k st)"
proof -
  obtain cs colMin where st: "st = (cs, colMin)" by (cases st) auto
  note I = inv[unfolded st reduceInv_def, simplified]
  have len: "length cs = n * n" "length colMin = n" using I by simp_all
  have cell: "\<And>r c. r < n \<Longrightarrow> c < n \<Longrightarrow> cs ! (r * n + c) =
        (if r < k then minus_T (cs0 ! (r * n + c)) (rowMin n cs0 r) else cs0 ! (r * n + c))"
    using I by simp
  have nn: "\<And>r c x. r < k \<Longrightarrow> c < n \<Longrightarrow> cs ! (r * n + c) = Fin x \<Longrightarrow> 0 \<le> x" using I by blast
  have lb: "\<And>r c. r < k \<Longrightarrow> c < n \<Longrightarrow> \<not> ec_less (cs ! (r * n + c)) (colMin ! c)" using I by blast
  define row where "row = take n (drop (k * n) cs)"
  have la: "length (take n (drop (k * n) cs)) = n" by (rule row_slice_nth(2)[OF len(1) k k])
  have lb0: "length (take n (drop (k * n) cs0)) = n" by (rule row_slice_nth(2)[OF l0 k k])
  have row0: "row = take n (drop (k * n) cs0)"
    unfolding row_def
  proof (rule nth_equalityI)
    show "length (take n (drop (k * n) cs)) = length (take n (drop (k * n) cs0))"
      by (simp only: la lb0)
    fix i assume "i < length (take n (drop (k * n) cs))"
    then have i: "i < n" by (simp only: la)
    show "take n (drop (k * n) cs) ! i = take n (drop (k * n) cs0) ! i"
      unfolding row_slice_nth(1)[OF len(1) k i] row_slice_nth(1)[OF l0 k i]
      using cell[OF k i] by simp
  qed
  have rlen: "length row = n" unfolding row_def by (rule row_slice_nth(2)[OF len(1) k k])
  have rnth: "\<And>c. c < n \<Longrightarrow> row ! c = cs0 ! (k * n + c)"
    unfolding row0 by (rule row_slice_nth(1)[OF l0 k])
  define h where "h = min_element row"
  have ne: "row \<noteq> []" using rlen k by auto
  note M = min_element_spec[OF ne, folded h_def]
  define cs' where "cs' = (case h of Inf \<Rightarrow> cs | Fin x \<Rightarrow> transform_row (\<lambda>a. minus_T a x) (k * n) n cs)"
  define colMin' where "colMin' = map2 std_min (take n (drop (k * n) cs')) colMin"
  have res: "reduceRow n k st = (cs', colMin')"
    by (simp add: reduceRow_def st Let_def row_def[symmetric] h_def[symmetric]
        cs'_def[symmetric] colMin'_def[symmetric])
  have rm: "rowMin n cs0 k = (case h of Inf \<Rightarrow> 0 | Fin x \<Rightarrow> x)"
    by (simp add: rowMin_def h_def row0)
  have len': "length cs' = n * n"
    using len by (simp add: cs'_def transform_row_length split: ecost.splits)
  have cell': "cs' ! (r * n + c) =
        (if r < Suc k then minus_T (cs0 ! (r * n + c)) (rowMin n cs0 r) else cs0 ! (r * n + c))"
    if rc: "r < n" "c < n" for r c
  proof (cases h)
    case Inf
    then show ?thesis using cell[OF rc] rm by (auto simp: cs'_def less_Suc_eq minus_T_zero)
  next
    case (Fin x)
    have "cs' ! (r * n + c) = (if r = k then minus_T (cs ! (r * n + c)) x else cs ! (r * n + c))"
      using transform_row_cell[OF len(1) k rc] by (simp add: cs'_def Fin)
    then show ?thesis using cell[OF rc] rm Fin by (auto simp: less_Suc_eq)
  qed
  have nn': "0 \<le> x" if a: "r < Suc k" "c < n" "cs' ! (r * n + c) = Fin x" for r c x
  proof (cases "r = k")
    case False
    then have rk: "r < k" using a by simp
    then have "cs' ! (r * n + c) = cs ! (r * n + c)"
      using cell'[of r c] cell[of r c] a k by simp
    then show ?thesis using nn[OF rk a(2)] a(3) by simp
  next
    case True
    have inr: "row ! c \<in> set row" using rlen a(2) by simp
    have le: "\<not> ec_less (row ! c) h" using M inr by blast
    show ?thesis
    proof (cases h)
      case Inf
      then have "row ! c = Inf" using le by (cases "row ! c") auto
      then have "cs' ! (r * n + c) = Inf"
        using cell'[of r c] a k True rm Inf rnth[OF a(2)] by simp
      then show ?thesis using a(3) by simp
    next
      case (Fin y)
      have "cs' ! (r * n + c) = minus_T (row ! c) y"
        using cell'[of r c] a k True rm Fin rnth[OF a(2)] by simp
      then show ?thesis using a(3) le Fin by (cases "row ! c") auto
    qed
  qed
  have sl: "take n (drop (k * n) cs') ! c = cs' ! (k * n + c)" if "c < n" for c
    by (rule row_slice_nth(1)[OF len' k that])
  have sll: "length (take n (drop (k * n) cs')) = n" by (rule row_slice_nth(2)[OF len' k k])
  have cm: "colMin' ! c = std_min (cs' ! (k * n + c)) (colMin ! c)" if "c < n" for c
    using that sl[OF that] sll len(2) by (simp add: colMin'_def)
  have clen': "length colMin' = n" using sll len(2) by (simp add: colMin'_def)
  have lb': "\<not> ec_less (cs' ! (r * n + c)) (colMin' ! c)" if a: "r < Suc k" "c < n" for r c
  proof (cases "r = k")
    case True
    then show ?thesis using cm[OF a(2)] std_min_le(1) by simp
  next
    case False
    then have rk: "r < k" using a by simp
    have e: "cs' ! (r * n + c) = cs ! (r * n + c)"
      using cell'[of r c] cell[of r c] a k rk by simp
    have "\<not> ec_less (colMin ! c) (colMin' ! c)" using cm[OF a(2)] std_min_le(2) by simp
    from ec_le_trans[OF this lb[OF rk a(2)]] show ?thesis using e by simp
  qed
  show ?thesis
    unfolding res reduceInv_def using len' clen' cell' nn' lb' by simp
qed

lemma reduceRow_fold:
  assumes "k \<le> n" and "length cs0 = n * n"
  shows "reduceInv n cs0 k (fold (reduceRow n) [0..<k] (cs0, replicate n Inf))"
  using assms(1)
proof (induction k)
  case 0
  then show ?case using assms(2) by (simp add: reduceInv_def)
next
  case (Suc k)
  then show ?case using reduceRow_inv[OF _ _ assms(2), of k] by simp
qed

lemma subColMin_fold:
  assumes "k \<le> n" and "length cs = n * n" and "length ys = n"
  shows "length (fold (\<lambda>row. transform_row2 minus_T ys (row * n) n) [0..<k] cs) = n * n \<and>
         (\<forall>r<n. \<forall>c<n. fold (\<lambda>row. transform_row2 minus_T ys (row * n) n) [0..<k] cs ! (r * n + c) =
            (if r < k then minus_T (cs ! (r * n + c)) (ys ! c) else cs ! (r * n + c)))"
  using assms(1)
proof (induction k)
  case 0
  then show ?case using assms(2) by simp
next
  case (Suc k)
  define cs1 where "cs1 = fold (\<lambda>row. transform_row2 minus_T ys (row * n) n) [0..<k] cs"
  have IH: "length cs1 = n * n"
    "\<And>r c. r < n \<Longrightarrow> c < n \<Longrightarrow> cs1 ! (r * n + c) =
        (if r < k then minus_T (cs ! (r * n + c)) (ys ! c) else cs ! (r * n + c))"
    using Suc by (simp_all add: cs1_def)
  have k: "k < n" using Suc.prems by simp
  have step: "fold (\<lambda>row. transform_row2 minus_T ys (row * n) n) [0..<Suc k] cs
      = transform_row2 minus_T ys (k * n) n cs1"
    by (simp add: cs1_def)
  have "k * n + n \<le> length cs1"
    using IH(1) k by (metis Suc_leI mult_Suc mult_le_mono1 add.commute)
  then have l: "length (transform_row2 minus_T ys (k * n) n cs1) = n * n"
    using IH(1) assms(3) by (simp add: transform_row2_length)
  have c: "transform_row2 minus_T ys (k * n) n cs1 ! (r * n + c) =
      (if r < Suc k then minus_T (cs ! (r * n + c)) (ys ! c) else cs ! (r * n + c))"
    if "r < n" "c < n" for r c
    using transform_row2_cell[OF IH(1) k that assms(3), of minus_T] IH(2)[OF that]
    by (auto simp: less_Suc_eq)
  show ?case unfolding step using l c by simp
qed

lemma reduceCosts_spec:
  assumes wf: "wf s"
  shows "\<exists>C. reduceCosts s = s\<lparr>cost := C\<rparr> \<and> length C = numRow s * numRow s"
    and "nonNegative (reduceCosts s)" and "reducedFrom (cost s) (reduceCosts s)"
proof -
  let ?n = "numRow s"
  have n: "numCol s = ?n" and l0: "length (cost s) = ?n * ?n" using wf by (simp_all add: wf_def)
  define st where "st = fold (reduceRow ?n) [0..<?n] (cost s, replicate ?n Inf)"
  obtain cs colMin where stp: "st = (cs, colMin)" by (cases st) auto
  have "reduceInv ?n (cost s) ?n st" unfolding st_def by (rule reduceRow_fold[OF _ l0]) simp
  note I = this[unfolded stp reduceInv_def, simplified]
  have len: "length cs = ?n * ?n" "length colMin = ?n" using I by simp_all
  have cell1: "\<And>r c. r < ?n \<Longrightarrow> c < ?n \<Longrightarrow>
      cs ! (r * ?n + c) = minus_T (cost s ! (r * ?n + c)) (rowMin ?n (cost s) r)"
    using I by simp
  have nn1: "\<And>r c x. r < ?n \<Longrightarrow> c < ?n \<Longrightarrow> cs ! (r * ?n + c) = Fin x \<Longrightarrow> 0 \<le> x"
    using I by blast
  have lb1: "\<And>r c. r < ?n \<Longrightarrow> c < ?n \<Longrightarrow> \<not> ec_less (cs ! (r * ?n + c)) (colMin ! c)"
    using I by blast
  define ys where "ys = finiteColMin colMin"
  have ylen: "length ys = ?n" using len by (simp add: ys_def finiteColMin_def)
  have ynth: "\<And>c. c < ?n \<Longrightarrow> ys ! c = (case colMin ! c of Inf \<Rightarrow> 0 | Fin x \<Rightarrow> x)"
    using len by (simp add: ys_def finiteColMin_def)
  define C where "C = fold (\<lambda>row. transform_row2 minus_T ys (row * ?n) ?n) [0..<?n] cs"
  have res: "reduceCosts s = s\<lparr>cost := C\<rparr>"
    by (simp add: reduceCosts_def Let_def n st_def[symmetric] stp ys_def[symmetric] C_def)
  note F = subColMin_fold[OF le_refl len(1) ylen, folded C_def]
  have lC: "length C = ?n * ?n" using F by simp
  have cC: "\<And>r c. r < ?n \<Longrightarrow> c < ?n \<Longrightarrow> C ! (r * ?n + c) = minus_T (cs ! (r * ?n + c)) (ys ! c)"
    using F by simp
  show "\<exists>C. reduceCosts s = s\<lparr>cost := C\<rparr> \<and> length C = numRow s * numRow s"
    using res lC by blast
  show "nonNegative (reduceCosts s)"
    unfolding nonNegative_def
  proof (intro allI impI)
    fix r c x
    assume a: "r < numRow (reduceCosts s)" "c < numCol (reduceCosts s)" "cell (reduceCosts s) r c = Fin x"
    then have rc: "r < ?n" "c < ?n" by (simp_all add: res n)
    have e: "minus_T (cs ! (r * ?n + c)) (ys ! c) = Fin x"
      using a(3) cC[OF rc] by (simp add: res cell_def n)
    then obtain a0 where a0: "cs ! (r * ?n + c) = Fin a0" "x = a0 - ys ! c"
      by (cases "cs ! (r * ?n + c)") auto
    have p: "0 \<le> a0" using nn1[OF rc a0(1)] .
    show "0 \<le> x"
    proof (cases "colMin ! c")
      case Inf
      then show ?thesis using a0 p ynth[OF rc(2)] by simp
    next
      case (Fin m)
      have "\<not> ec_less (Fin a0) (Fin m)" using lb1[OF rc] a0(1) Fin by simp
      then show ?thesis using a0 ynth[OF rc(2)] Fin by simp
    qed
  qed
  show "reducedFrom (cost s) (reduceCosts s)"
    unfolding reducedFrom_def
  proof (intro exI allI impI)
    fix r c assume a: "r < numRow (reduceCosts s)" "c < numCol (reduceCosts s)"
    then have rc: "r < ?n" "c < ?n" by (simp_all add: res n)
    show "cell (reduceCosts s) r c =
        minus_T (cost s ! (r * numCol (reduceCosts s) + c)) (rowMin ?n (cost s) r + ys ! c)"
      using cC[OF rc] cell1[OF rc] by (simp add: res cell_def n minus_T_minus_T)
  qed
qed

subsection \<open>The first stars\<close>

lemma starCell_inv:
  assumes inv: "starInv s1 i j s" and i: "i < numRow s1" and j: "j < numRow s1"
  shows "starInv s1 i (Suc j) (starCell i j s)"
proof -
  let ?n = "numRow s1"
  note I = inv[unfolded starInv_def]
  have wf: "wf s" and n: "numRow s = ?n" and nc: "numCol s = numCol s1" and cs: "cost s = cost s1"
    and one: "starsOneToOne s" and onz: "starsOnZeros s"
    using I by simp_all
  have ncn: "numCol s = ?n" using wf n by (simp add: wf_def)
  have ce: "cell s = cell s1" by (rule cell_cong[OF nc cs])
  have zs: "\<And>r. r < ?n \<Longrightarrow> set (zeros s ! r) =
        {c. c < ?n \<and> cell s1 r c = Fin 0 \<and> (r < i \<or> (r = i \<and> c < j))}" using I by blast
  have rcv: "\<And>r. r < ?n \<Longrightarrow> rowCovered s ! r = (starredZeros s ! r \<noteq> None)" using I by blast
  have ccv: "\<And>c. c < ?n \<Longrightarrow> colCovered s ! c = (\<exists>r<?n. starredZeros s ! r = Some c)"
    using I by blast
  have lens: "length (zeros s) = ?n" "length (rowCovered s) = ?n" "length (colCovered s) = ?n"
    "length (starredZeros s) = ?n"
    using wf n by (simp_all add: wf_def)
  show ?thesis
  proof (cases "cell s i j = Fin 0")
    case False
    have "starCell i j s = s" using False by (simp add: starCell_def)
    moreover have "\<And>r. r < ?n \<Longrightarrow> set (zeros s ! r) =
        {c. c < ?n \<and> cell s1 r c = Fin 0 \<and> (r < i \<or> (r = i \<and> c < Suc j))}"
      using zs False ce by (auto simp: less_Suc_eq)
    ultimately show ?thesis using I unfolding starInv_def by simp
  next
    case True
    define sz where "sz = s\<lparr>zeros := (zeros s)[i := zeros s ! i @ [j]]\<rparr>"
    have zs': "set (zeros sz ! r) =
        {c. c < ?n \<and> cell s1 r c = Fin 0 \<and> (r < i \<or> (r = i \<and> c < Suc j))}"
      if r: "r < ?n" for r
    proof (cases "r = i")
      case False
      then show ?thesis using zs[OF r] lens by (auto simp: sz_def)
    next
      case ri: True
      have "set (zeros sz ! r) = insert j (set (zeros s ! i))"
        using lens i ri by (simp add: sz_def)
      then show ?thesis using zs[OF i] True j ri ce by (auto simp: less_Suc_eq)
    qed
    have wfz: "wf sz" using wf by (simp add: wf_def sz_def)
    show ?thesis
    proof (cases "\<not> rowCovered s ! i \<and> \<not> colCovered s ! j")
      case False
      have "starCell i j s = sz" using True False by (auto simp: starCell_def sz_def Let_def)
      moreover have "starInv s1 i (Suc j) sz"
        unfolding starInv_def using wfz zs' n nc cs one onz rcv ccv
        by (simp add: sz_def starsOneToOne_def starsOnZeros_def cell_def)
      ultimately show ?thesis by simp
    next
      case unc: True
      define ss where "ss = sz\<lparr>rowCovered := (rowCovered sz)[i := True],
             colCovered := (colCovered sz)[j := True],
             starredZeros := (starredZeros sz)[i := Some j]\<rparr>"
      have res: "starCell i j s = ss"
        using True unc by (simp add: starCell_def sz_def ss_def Let_def)
      have sti: "starredZeros s ! i = None" using rcv[OF i] unc by simp
      have stj: "\<And>r. r < ?n \<Longrightarrow> starredZeros s ! r \<noteq> Some j" using ccv[OF j] unc by simp
      have st': "starredZeros ss ! r = (if r = i then Some j else starredZeros s ! r)"
        if "r < ?n" for r
        using that lens by (simp add: ss_def sz_def nth_list_update)
      have rc': "rowCovered ss ! r = (r = i \<or> rowCovered s ! r)" if "r < ?n" for r
        using that lens by (cases "r = i") (simp_all add: ss_def sz_def)
      have cc': "colCovered ss ! c = (c = j \<or> colCovered s ! c)" if "c < ?n" for c
        using that lens by (cases "c = j") (simp_all add: ss_def sz_def)
      have fs: "numRow ss = ?n" "numCol ss = numCol s1" "cost ss = cost s1" "zeros ss = zeros sz"
        using n nc cs by (simp_all add: ss_def sz_def)
      have ce': "cell ss = cell s1" by (rule cell_cong[OF fs(2,3)])
      have wfs: "wf ss" using wfz by (simp add: wf_def ss_def)
      have one': "starsOneToOne ss"
        unfolding starsOneToOne_def fs
      proof (intro allI impI)
        fix x y k assume a: "x < ?n" "y < ?n" "starredZeros ss ! x = Some k \<and> starredZeros ss ! y = Some k"
        show "x = y"
          using a one stj[of x] stj[of y] n unfolding starsOneToOne_def
          by (auto simp: st' split: if_splits)
      qed
      have onz': "starsOnZeros ss"
        unfolding starsOnZeros_def fs ce'
      proof (intro allI impI)
        fix x k assume a: "x < ?n" "starredZeros ss ! x = Some k"
        show "k < numCol s1 \<and> cell s1 x k = Fin 0"
          using a onz True j n nc ncn ce unfolding starsOnZeros_def
          by (auto simp: st' split: if_splits)
      qed
      have rcv': "rowCovered ss ! r = (starredZeros ss ! r \<noteq> None)" if "r < ?n" for r
        using rcv[OF that] by (simp add: rc'[OF that] st'[OF that])
      have ccv': "colCovered ss ! c = (\<exists>r<?n. starredZeros ss ! r = Some c)" if c: "c < ?n" for c
      proof (cases "c = j")
        case True
        have "colCovered ss ! c" using cc'[OF j] True by simp
        moreover have "\<exists>r<?n. starredZeros ss ! r = Some c"
          using i st'[OF i] True by auto
        ultimately show ?thesis by simp
      next
        case False
        have "(starredZeros ss ! r = Some c) = (starredZeros s ! r = Some c)" if "r < ?n" for r
          using False sti st'[OF that] st'[OF i] by (cases "r = i") auto
        then have "(\<exists>r<?n. starredZeros ss ! r = Some c) = (\<exists>r<?n. starredZeros s ! r = Some c)"
          by blast
        then show ?thesis using ccv[OF c] False by (simp add: cc'[OF c])
      qed
      have "starInv s1 i (Suc j) ss"
        unfolding starInv_def using wfs fs zs' one' onz' rcv' ccv' by simp
      then show ?thesis using res by simp
    qed
  qed
qed

lemma starRow_inv:
  assumes "starInv s1 i 0 s" and "i < numRow s1" and "j \<le> numRow s1"
  shows "starInv s1 i j (fold (starCell i) [0..<j] s)"
  using assms(3)
proof (induction j)
  case 0
  then show ?case using assms(1) by simp
next
  case (Suc j)
  then show ?case using starCell_inv[OF _ assms(2), of j] by simp
qed

lemma starInv_next_row:
  assumes "starInv s1 i (numRow s1) s"
  shows "starInv s1 (Suc i) 0 s"
proof -
  have "{c. c < numRow s1 \<and> cell s1 r c = Fin 0 \<and> (r < i \<or> (r = i \<and> c < numRow s1))} =
      {c. c < numRow s1 \<and> cell s1 r c = Fin 0 \<and> (r < Suc i \<or> (r = Suc i \<and> c < 0))}" for r
    by (auto simp: less_Suc_eq)
  then show ?thesis using assms unfolding starInv_def by simp
qed

lemma starRows_inv:
  assumes "starInv s1 0 0 s" and "i \<le> numRow s1"
  shows "starInv s1 i 0 (fold (\<lambda>row. fold (starCell row) [0..<numRow s1]) [0..<i] s)"
  using assms(2)
proof (induction i)
  case 0
  then show ?case using assms(1) by simp
next
  case (Suc i)
  let ?s = "fold (\<lambda>row. fold (starCell row) [0..<numRow s1]) [0..<i] s"
  have "starInv s1 i 0 ?s" using Suc by simp
  then have "starInv s1 i (numRow s1) (fold (starCell i) [0..<numRow s1] ?s)"
    using starRow_inv[of s1 i ?s "numRow s1"] Suc.prems by simp
  then show ?case using starInv_next_row by simp
qed

subsection \<open>The state on entry to the loop of \<open>compute\<close>\<close>

lemma cover_fold_list:
  "fold (\<lambda>c cc. case c of None \<Rightarrow> cc | Some c' \<Rightarrow> cc[c' := True]) st cc0 =
   fold (\<lambda>r cc. case st ! r of None \<Rightarrow> cc | Some c \<Rightarrow> cc[c := True]) [0..<length st] cc0"
proof -
  have "fold (\<lambda>c cc. case c of None \<Rightarrow> cc | Some c' \<Rightarrow> cc[c' := True]) (map (\<lambda>r. st ! r) [0..<length st]) cc0 =
   fold (\<lambda>r cc. case st ! r of None \<Rightarrow> cc | Some c \<Rightarrow> cc[c := True]) [0..<length st] cc0"
    by (simp add: fold_map comp_def)
  then show ?thesis by (simp add: map_nth)
qed

lemma coverStarred_fields:
  "numRow (coverStarred s) = numRow s" "numCol (coverStarred s) = numCol s"
  "cost (coverStarred s) = cost s" "zeros (coverStarred s) = zeros s"
  "starredZeros (coverStarred s) = starredZeros s" "primedZeros (coverStarred s) = primedZeros s"
  "workers (coverStarred s) = workers s" "workerRows (coverStarred s) = workerRows s"
  "workerCosts (coverStarred s) = workerCosts s"
  "rowCovered (coverStarred s) = replicate (length (rowCovered s)) False"
  "length (colCovered (coverStarred s)) = length (colCovered s)"
  by (simp_all add: coverStarred_def Let_def cover_fold_list cover_fold_length)

lemma coverStarred_colCovered:
  assumes "k < length (colCovered s)"
  shows "colCovered (coverStarred s) ! k = (\<exists>r<length (starredZeros s). starredZeros s ! r = Some k)"
  using cover_fold_nth[of k "replicate (length (colCovered s)) False" "starredZeros s"
      "length (starredZeros s)"] assms
  by (simp add: coverStarred_def Let_def cover_fold_list)

lemma fresh_starInv:
  assumes "fresh s0"
  shows "starInv (reduceCosts s0) 0 0 (reduceCosts s0)"
proof -
  have wf: "wf s0" using assms by (simp add: fresh_def)
  obtain C where C: "reduceCosts s0 = s0\<lparr>cost := C\<rparr>" "length C = numRow s0 * numRow s0"
    using reduceCosts_spec(1)[OF wf] by blast
  have wf1: "wf (s0\<lparr>cost := C\<rparr>)" using wf C(2) by (simp add: wf_def)
  show ?thesis
    unfolding C(1) starInv_def using wf1 assms
    by (simp add: fresh_def starsOneToOne_def starsOnZeros_def)
qed

lemma initialise_spec:
  assumes fr: "fresh s0"
  shows "outerInv (cost s0) (initialise s0)" and "numRow (initialise s0) = numRow s0"
    and "workers (initialise s0) = workers s0"
    and "coreInv (cost s0) (initialise s0)"
    and "\<forall>k<numCol (initialise s0). colCovered (initialise s0) ! k =
           (\<exists>r<numRow (initialise s0). starredZeros (initialise s0) ! r = Some k)"
proof -
  let ?n = "numRow s0"
  have wf: "wf s0" using fr by (simp add: fresh_def)
  define s1 where "s1 = reduceCosts s0"
  obtain C where C: "s1 = s0\<lparr>cost := C\<rparr>" "length C = ?n * ?n"
    using reduceCosts_spec(1)[OF wf] unfolding s1_def by blast
  have n1: "numRow s1 = ?n" "numCol s1 = ?n" "workers s1 = workers s0"
    using wf by (simp_all add: C(1) wf_def)
  have nn1: "nonNegative s1" and red1: "reducedFrom (cost s0) s1"
    unfolding s1_def using reduceCosts_spec(2,3)[OF wf] by simp_all
  define s2 where "s2 = starZeros s1"
  have s2: "s2 = fold (\<lambda>row. fold (starCell row) [0..<numRow s1]) [0..<numRow s1] s1"
    by (simp add: s2_def starZeros_def n1)
  have "starInv s1 0 0 s1" unfolding s1_def by (rule fresh_starInv[OF fr])
  from starRows_inv[OF this le_refl]
  have SI: "starInv s1 (numRow s1) 0 s2" unfolding s2 .
  note I = SI[unfolded starInv_def n1]
  have wf2: "wf s2" and f2: "numRow s2 = ?n" "numCol s2 = ?n" "cost s2 = cost s1"
    and one2: "starsOneToOne s2" and onz2: "starsOnZeros s2"
    using I by simp_all
  have ce2: "cell s2 = cell s1" by (rule cell_cong) (simp_all add: f2 n1)
  have ze2: "zerosExact s2"
    unfolding zerosExact_def f2 ce2 using I by auto
  have nn2: "nonNegative s2" using nn1 unfolding nonNegative_def f2 n1 ce2 .
  have red2: "reducedFrom (cost s0) s2" using red1 unfolding reducedFrom_def f2 n1 ce2 .
  have core2: "coreInv (cost s0) s2"
    using wf2 ze2 one2 onz2 nn2 red2 by (simp add: coreInv_def)
  define s3 where "s3 = coverStarred s2"
  note cf = coverStarred_fields[of s2, folded s3_def]
  have lens: "length (rowCovered s2) = ?n" "length (colCovered s2) = ?n"
    "length (starredZeros s2) = ?n"
    using wf2 f2 by (simp_all add: wf_def)
  have wf3: "wf s3" using wf2 unfolding wf_def cf by simp
  have core3: "coreInv (cost s0) s3" by (rule coreInv_cong[OF core2 wf3]) (simp_all add: cf)
  have rows3: "\<forall>r<numRow s3. \<not> rowCovered s3 ! r" using lens by (simp add: cf f2)
  have cols3: "\<forall>k<numCol s3. colCovered s3 ! k = (\<exists>r<numRow s3. starredZeros s3 ! r = Some k)"
    using coverStarred_colCovered[of _ s2, folded s3_def] lens by (simp add: cf f2)
  have i3: "initialise s0 = s3" by (simp add: initialise_def s3_def s2_def s1_def)
  show "outerInv (cost s0) (initialise s0)"
    unfolding i3 by (rule outerInv_recovered[OF core3 rows3 cols3])
  show "coreInv (cost s0) (initialise s0)" unfolding i3 by (rule core3)
  show "\<forall>k<numCol (initialise s0). colCovered (initialise s0) ! k =
           (\<exists>r<numRow (initialise s0). starredZeros (initialise s0) ! r = Some k)"
    unfolding i3 by (rule cols3)
  show "numRow (initialise s0) = numRow s0" by (simp add: i3 cf f2)
  have "workers s2 = workers s1"
  proof -
    have "workers (starCell i j s) = workers s" for i j s
      by (simp add: starCell_def Let_def)
    then have a: "workers (fold (starCell i) js s) = workers s" for i js s
      by (induction js arbitrary: s) simp_all
    have "workers (fold (\<lambda>row. fold (starCell row) js) is s) = workers s" for js "is" s
      by (induction "is" arbitrary: s) (simp_all add: a)
    then show ?thesis by (simp add: s2)
  qed
  then show "workers (initialise s0) = workers s0" by (simp add: i3 cf n1)
qed

subsection \<open>Every state of the loop of \<open>compute\<close>\<close>

lemma computeRun_inv:
  assumes fr: "fresh s0" and run: "computeRun s0 k s"
  shows "outerInv (cost s0) s \<and> numRow s = numRow s0 \<and> workers s = workers s0 \<and>
         starCount s = starCount (initialise s0) + k \<and>
         assignLoop (initialise s0) = assignLoop s"
  using run
proof (induction rule: computeRun.induct)
  case run_entry
  then show ?case using initialise_spec(1,2,3)[OF fr] by simp
next
  case (run_iterate k s s')
  have nc: "\<not> allCovered s" using run_iterate.hyps(2) by (simp add: allCovered_def)
  have outer: "outerInv (cost s0) s" using run_iterate.IH by simp
  then have core: "coreInv (cost s0) s" and loop: "loopInv s"
    using nc by (simp_all add: outerInv_def)
  from iterate_spec[OF core loop] run_iterate.hyps(3)
  have S: "outerInv (cost s0) s'" "numRow s' = numRow s" "workers s' = workers s"
    "if augmenting s then starCount s' = starCount s + 1 else starredZeros s' = starredZeros s"
    by auto
  have cnt: "starCount s' = starCount s + (if augmenting s then 1 else 0)"
    using S(2,4) by (auto simp: starCount_def)
  have "assignLoop s = assignLoop s'"
    using run_iterate.hyps(2,3) by (subst assignLoop.simps) simp
  then show ?case using S(1,2,3) cnt run_iterate.IH by auto
qed

text \<open>
  Claim C3. In every state of the loop of \<open>compute\<close> on a new solver \<open>s0\<close> (on entry,
  after the first stars were set, and after each call of \<open>iterate\<close>, augmentations
  included) no column is the starred column of two rows. That a row has at most one starred
  column is in the type of \<open>starredZeros\<close>: one entry for each row.
\<close>

theorem stars_one_to_one:
  assumes "fresh s0" and "computeRun s0 k s"
  shows "\<forall>r<numRow s. \<forall>r'<numRow s. \<forall>c.
           starredZeros s ! r = Some c \<and> starredZeros s ! r' = Some c \<longrightarrow> r = r'"
  using computeRun_inv[OF assms]
  unfolding outerInv_def coreInv_def starsOneToOne_def by blast

text \<open>
  Claim C4. In every state of the loop of \<open>compute\<close> on a new solver, after the scan that
  fills the lists and after every cost update, the list \<open>zeros[row]\<close> holds exactly the
  columns whose cell in that row is zero.
\<close>

theorem zeros_exact:
  assumes "fresh s0" and "computeRun s0 k s"
  shows "\<forall>row<numRow s. set (zeros s ! row) = {c. c < numCol s \<and> cell s row c = Fin 0}"
  using computeRun_inv[OF assms]
  unfolding outerInv_def coreInv_def zerosExact_def by blast

text \<open>
  Claim C2. On a new solver: a call of \<open>iterate\<close> that takes the augmenting branch returns
  with one more starred row; the calls that were augmentations are at most \<open>numRow\<close> (the
  larger of the two dimensions); and the loop of \<open>compute\<close> ends, so the calls of
  \<open>iterate\<close> that update the costs are finitely many.
\<close>

theorem augmentation_progress:
  assumes "fresh s0" and "computeRun s0 k s"
  shows "(\<not> list_all (\<lambda>b. b) (colCovered s) \<and> augmenting s \<longrightarrow>
            (\<exists>s'. iterate s = Some s' \<and> starCount s' = starCount s + 1)) \<and>
         k \<le> numRow s0 \<and>
         (\<exists>s'. assignLoop s = Some s' \<and> list_all (\<lambda>b. b) (colCovered s')) \<and>
         (\<exists>res. compute s0 = Some res)"
proof -
  note I = computeRun_inv[OF assms]
  have outer: "outerInv (cost s0) s" using I by simp
  have a: "\<exists>s'. iterate s = Some s' \<and> starCount s' = starCount s + 1"
    if "\<not> list_all (\<lambda>b. b) (colCovered s)" "augmenting s"
  proof -
    have "coreInv (cost s0) s" "loopInv s"
      using outer that(1) by (simp_all add: outerInv_def allCovered_def)
    from iterate_spec[OF this] that(2) show ?thesis by auto
  qed
  have "starCount s \<le> numRow s" by (rule starCount_le)
  then have b: "k \<le> numRow s0" using I by simp
  obtain s' where s': "assignLoop s = Some s'" "allCovered s'"
    using assignLoop_spec[OF outer] by blast
  have c: "\<exists>s'. assignLoop s = Some s' \<and> list_all (\<lambda>b. b) (colCovered s')"
    using s' by (auto simp: allCovered_def)
  have d: "\<exists>res. compute s0 = Some res" using I s'(1) by (simp add: compute_def)
  show ?thesis using a b c d by blast
qed

subsection \<open>New solvers\<close>

lemma Hungarian_fresh: "fresh (Hungarian hc rows columns)"
  by (simp add: fresh_def wf_def Hungarian_def Let_def)

lemma setCost_fresh: "fresh s \<Longrightarrow> fresh (setCost r c v s)"
  by (simp add: fresh_def wf_def setCost_def)

lemma fold_setCost_fresh:
  "fresh s \<Longrightarrow> fresh (fold (\<lambda>(r, c). setCost r c (f r c)) ps s)"
  by (induction ps arbitrary: s) (auto simp: setCost_fresh)

lemma solver_fresh: "fresh (solver hc rows columns m)"
  unfolding solver_def by (rule fold_setCost_fresh[OF Hungarian_fresh])






text \<open>The first call of \<open>iterate\<close> on the concrete input is an augmentation.\<close>

lemma exampleSolver_fresh: "fresh exampleSolver"
  unfolding exampleSolver_def by (rule solver_fresh)

lemma exampleSolver_first_call:
  "\<not> list_all (\<lambda>b. b) (colCovered (initialise exampleSolver))"
  "augmenting (initialise exampleSolver)"
  "iterate (initialise exampleSolver) \<noteq> None"
  by code_simp+

lemma exampleSolver_run:
  "\<exists>s'. iterate (initialise exampleSolver) = Some s' \<and> computeRun exampleSolver 1 s'"
proof -
  obtain s' where it: "iterate (initialise exampleSolver) = Some s'"
    using exampleSolver_first_call(3) by auto
  from run_iterate[OF run_entry exampleSolver_first_call(1) it]
  have "computeRun exampleSolver 1 s'" using exampleSolver_first_call(2) by simp
  then show ?thesis using it by blast
qed

theorem stars_one_to_one_witness:
  "fresh exampleSolver \<and> (\<exists>s'. computeRun exampleSolver 1 s' \<and> starsOneToOne s')"
proof -
  obtain s' where run: "computeRun exampleSolver 1 s'" using exampleSolver_run by blast
  have "starsOneToOne s'"
    unfolding starsOneToOne_def by (rule stars_one_to_one[OF exampleSolver_fresh run])
  then show ?thesis using exampleSolver_fresh run by blast
qed

theorem zeros_exact_witness:
  "fresh exampleSolver \<and> (\<exists>s'. computeRun exampleSolver 1 s' \<and> zerosExact s')"
proof -
  obtain s' where run: "computeRun exampleSolver 1 s'" using exampleSolver_run by blast
  have "zerosExact s'"
    unfolding zerosExact_def by (rule zeros_exact[OF exampleSolver_fresh run])
  then show ?thesis using exampleSolver_fresh run by blast
qed

theorem augmentation_progress_witness:
  "fresh exampleSolver \<and> computeRun exampleSolver 0 (initialise exampleSolver) \<and>
   \<not> list_all (\<lambda>b. b) (colCovered (initialise exampleSolver)) \<and>
   augmenting (initialise exampleSolver) \<and>
   (\<exists>s'. iterate (initialise exampleSolver) = Some s' \<and>
         starCount s' = starCount (initialise exampleSolver) + 1) \<and>
   (\<exists>res. compute exampleSolver = Some res)"
  using augmentation_progress[OF exampleSolver_fresh run_entry]
    exampleSolver_fresh exampleSolver_first_call(1,2) run_entry[of exampleSolver]
  by blast

subsection \<open>The result of \<open>compute\<close>\<close>




lemma reduced_finite:
  assumes "reducedFrom cs0 s" and "r < numRow s" and "c < numCol s"
  shows "(cell s r c = Inf) = (cs0 ! (r * numCol s + c) = Inf)"
proof -
  obtain u v where "cell s r c = minus_T (cs0 ! (r * numCol s + c)) (u r + v c)"
    using assms unfolding reducedFrom_def by blast
  then show ?thesis by (cases "cs0 ! (r * numCol s + c)") auto
qed



text \<open>
  Claim C5. \<open>updateCosts h\<close> is called with the worker ranges covering all rows, with
  \<open>colInds\<close> the uncovered columns and with \<open>h\<close> the finite least cost of the cells whose
  row and column are both uncovered. If no cell is negative before the call, none is after
  it; the infinite cells are the same before and after; and some cell in an uncovered row
  and an uncovered column is zero after it.
\<close>

theorem updateCosts_nonNegative:
  assumes wf: "wf s" and part: "rowPartition (workers s) (numRow s) (workerRows s)"
    and ci: "colInds s = filter (\<lambda>col. \<not> colCovered s ! col) [0..<numCol s]"
    and nn: "nonNegative s" and mn: "isMinUncovered s (Fin h)"
  shows "nonNegative (updateCosts h s) \<and>
         (\<forall>r<numRow s. \<forall>c<numCol s. (cell (updateCosts h s) r c = Inf) = (cell s r c = Inf)) \<and>
         (\<exists>r<numRow s. \<exists>c<numCol s. \<not> rowCovered s ! r \<and> \<not> colCovered s ! c \<and>
             cell (updateCosts h s) r c = Fin 0)"
proof -
  let ?s = "updateCosts h s"
  let ?n = "numRow s"
  have n: "numCol s = ?n" using wf by (simp add: wf_def)
  note E = updateCosts_effect[OF wf part ci, where x = h]
  note fr = costFrame_fields[OF E(1)]
  have U: "cell ?s r c =
     (if rowCovered s ! r then (if colCovered s ! c then plus_T (cell s r c) h else cell s r c)
      else (if colCovered s ! c then cell s r c else minus_T (cell s r c) h))"
    if rc: "r < ?n" "c < ?n" for r c
    using E(4)[OF rc] updatedCell_cases[OF ci, where c = c and x = h and r = r] rc n by simp
  obtain r0 c0 where m0: "r0 < ?n" "c0 < ?n" "\<not> rowCovered s ! r0" "\<not> colCovered s ! c0"
      "cell s r0 c0 = Fin h"
    using mn n by (auto simp: isMinUncovered_def)
  have NN: "0 \<le> x" if "r < ?n" "c < ?n" "cell s r c = Fin x" for r c x
    using nn that n by (auto simp: nonNegative_def)
  have hpos: "0 \<le> h" using NN[OF m0(1,2,5)] .
  have lower: "h \<le> y"
    if a: "r < ?n" "c < ?n" "\<not> rowCovered s ! r" "\<not> colCovered s ! c" "cell s r c = Fin y" for r c y
  proof -
    have "\<forall>r<numRow s. \<forall>c<numCol s. \<not> rowCovered s ! r \<and> \<not> colCovered s ! c
         \<longrightarrow> \<not> ec_less (cell s r c) (Fin h)"
      using mn unfolding isMinUncovered_def by blast
    then have "\<not> ec_less (cell s r c) (Fin h)" using a(1-4) n by auto
    then show ?thesis using a(5) by simp
  qed
  have 1: "nonNegative ?s"
    unfolding nonNegative_def fr
  proof (intro allI impI)
    fix r c y assume a: "r < ?n" "c < numCol s" "cell ?s r c = Fin y"
    then have c: "c < ?n" using n by simp
    obtain a0 where a0: "cell s r c = Fin a0" using a(3) U[OF a(1) c]
      by (cases "cell s r c") (auto split: if_splits)
    have p: "0 \<le> a0" using NN[OF a(1) c a0] .
    show "0 \<le> y"
      using a(3) U[OF a(1) c] a0 p hpos lower[OF a(1) c _ _ a0]
      by (auto split: if_splits)
  qed
  have 2: "(cell ?s r c = Inf) = (cell s r c = Inf)" if "r < ?n" "c < numCol s" for r c
    using U[OF that(1), of c] that n by (cases "cell s r c") auto
  have "cell ?s r0 c0 = Fin 0" using U[OF m0(1,2)] m0 by simp
  then have 3: "\<exists>r<?n. \<exists>c<numCol s. \<not> rowCovered s ! r \<and> \<not> colCovered s ! c \<and>
             cell ?s r c = Fin 0"
    using m0 n by auto
  show ?thesis using 1 2 3 by blast
qed

lemma updateExample_pre:
  "wf updateExample"
  "rowPartition (workers updateExample) (numRow updateExample) (workerRows updateExample)"
  "colInds updateExample =
     filter (\<lambda>col. \<not> colCovered updateExample ! col) [0..<numCol updateExample]"
  "nonNegative updateExample"
  "isMinUncovered updateExample (Fin 1)"
proof -
  define S where "S = solver 1 3 3 (\<lambda>r c. [[1, 2, 3], [2, 4, 6], [3, 6, 9]] ! r ! c)"
  have fr: "fresh S" unfolding S_def by (rule solver_fresh)
  have nc0: "\<not> list_all (\<lambda>b. b) (colCovered (initialise S))" unfolding S_def by code_simp
  have it0: "iterate (initialise S) \<noteq> None" unfolding S_def by code_simp
  define sA where "sA = the (iterate (initialise S))"
  have it: "iterate (initialise S) = Some sA" using it0 by (auto simp: sA_def)
  have ncA: "\<not> list_all (\<lambda>b. b) (colCovered sA)" unfolding sA_def S_def by code_simp
  note I = computeRun_inv[OF fr run_iterate[OF run_entry nc0 it]]
  have core: "coreInv (cost S) sA" and loop: "loopInv sA"
    using I ncA by (simp_all add: outerInv_def allCovered_def)
  obtain res where pl: "primeLoop sA = Some res" and pr: "primeResult (cost S) sA res"
    using primeLoop_spec[OF core loop] by blast
  define s1 where "s1 = fst (the (primeLoop sA))"
  have core1: "coreInv (cost S) s1"
    using pr unfolding primeResult_def s1_def pl by (cases res) simp
  have wf1: "wf s1" and nn1: "nonNegative s1" using core1 by (simp_all add: coreInv_def)
  obtain h sC where F: "findMinUncoveredCost (rebalanceWorkers (fillColInds s1)) = (h, sC)"
    "isMinUncovered s1 h" "wf sC" "scratchFrame sC = scratchFrame s1"
    "colInds sC = filter (\<lambda>col. \<not> colCovered s1 ! col) [0..<numCol s1]"
    "rowPartition (workers s1) (numRow s1) (workerRows sC)"
    using noZero_search[OF wf1] by blast
  have ue: "updateExample = sC"
    unfolding updateExample_def S_def[symmetric] sA_def[symmetric] s1_def[symmetric] F(1)
    by simp
  have "fst (findMinUncoveredCost (rebalanceWorkers (fillColInds s1))) = Fin 1"
    unfolding s1_def sA_def S_def by code_simp
  then have h: "h = Fin 1" by (simp add: F(1))
  note sf = scratchFrame_fields[OF F(4)]
  have ce: "cell sC = cell s1" by (rule cell_cong) (simp_all add: sf)
  show "wf updateExample" unfolding ue by (rule F(3))
  show "rowPartition (workers updateExample) (numRow updateExample) (workerRows updateExample)"
    unfolding ue using F(6) by (simp add: sf)
  show "colInds updateExample =
     filter (\<lambda>col. \<not> colCovered updateExample ! col) [0..<numCol updateExample]"
    unfolding ue using F(5) by (simp add: sf)
  show "nonNegative updateExample"
    unfolding ue using nn1 unfolding nonNegative_def sf ce .
  show "isMinUncovered updateExample (Fin 1)"
    unfolding ue using F(2) h isMinUncovered_cong[of sC s1 "Fin 1"] by (simp add: sf)
qed

theorem updateCosts_nonNegative_witness:
  "wf updateExample \<and>
   rowPartition (workers updateExample) (numRow updateExample) (workerRows updateExample) \<and>
   colInds updateExample =
     filter (\<lambda>col. \<not> colCovered updateExample ! col) [0..<numCol updateExample] \<and>
   nonNegative updateExample \<and> isMinUncovered updateExample (Fin 1) \<and>
   nonNegative (updateCosts 1 updateExample) \<and>
   (\<exists>r<numRow updateExample. \<exists>c<numCol updateExample.
       \<not> rowCovered updateExample ! r \<and> \<not> colCovered updateExample ! c \<and>
       cell (updateCosts 1 updateExample) r c = Fin 0)"
  using updateCosts_nonNegative[OF updateExample_pre] updateExample_pre by blast

lemma infeasible_step:
  assumes core: "coreInv cs0 s" and loop: "loopInv s"
    and pl: "primeLoop s = Some (s1, None)"
    and inf: "fst (findMinUncoveredCost (rebalanceWorkers (fillColInds s1))) = Inf"
  shows "\<exists>s'. iterate s = Some s' \<and> list_all (\<lambda>b. b) (colCovered s') \<and>
           assignLoop s = Some s' \<and> starredZeros s' = starredZeros s"
proof -
  have nc: "\<not> list_all (\<lambda>b. b) (colCovered s)"
    using loopInv_not_allCovered[OF core loop] by (simp add: allCovered_def)
  obtain res where r: "primeLoop s = Some res" "primeResult cs0 s res"
    using primeLoop_spec[OF core loop] by blast
  have res: "res = (s1, None)" using r(1) pl by simp
  note P = r(2)[unfolded primeResult_def res, simplified]
  have core1: "coreInv cs0 s1" and loop1: "loopInv s1"
    and pf: "primeFrame s1 = primeFrame s" and nz: "findUncoveredZero s1 = None"
    using P by simp_all
  obtain sC where F: "findMinUncoveredCost (rebalanceWorkers (fillColInds s1)) = (Inf, sC)"
    using inf by (cases "findMinUncoveredCost (rebalanceWorkers (fillColInds s1))") simp
  define s' where "s' = noZero s1"
  have s'eq: "s' = sC\<lparr>colCovered := replicate (length (colCovered sC)) True\<rparr>"
    by (simp add: s'_def noZero_def F)
  have it: "iterate s = Some s'" by (simp add: iterate_def pl s'_def)
  have all: "list_all (\<lambda>b. b) (colCovered s')" by (simp add: s'eq list_all_length)
  have st: "starredZeros s' = starredZeros s"
    using noZero_spec(3)[OF core1 loop1 nz] primeFrame_fields(5)[OF pf] by (simp add: s'_def)
  have "assignLoop s' = Some s'" using all by (subst assignLoop.simps) simp
  moreover have "assignLoop s = assignLoop s'" using nc it by (subst assignLoop.simps) simp
  ultimately have al: "assignLoop s = Some s'" by simp
  show ?thesis using it all al st by simp
qed

text \<open>
  Claim C6. In a state of the loop of \<open>compute\<close> on a new solver, let the loop of
  \<open>iterate\<close> end in \<open>s1\<close> without an uncovered zero, and let \<open>findMinUncoveredCost\<close>
  return the fill value. Then \<open>iterate\<close> returns (no fault) with every column covered,
  the loop of \<open>compute\<close> ends there, and \<open>compute\<close> returns the stars as they were: a row
  without a star is reported as unassigned.
\<close>

theorem infeasible_exit:
  assumes fr: "fresh s0" and run: "computeRun s0 k s"
    and nc: "\<not> list_all (\<lambda>b. b) (colCovered s)"
    and pl: "primeLoop s = Some (s1, None)"
    and inf: "fst (findMinUncoveredCost (rebalanceWorkers (fillColInds s1))) = Inf"
  shows "\<exists>s'. iterate s = Some s' \<and> list_all (\<lambda>b. b) (colCovered s') \<and>
           assignLoop s = Some s' \<and> starredZeros s' = starredZeros s \<and>
           compute s0 = Some (starredZeros s) \<and>
           (\<forall>r<numRow s. starredZeros s ! r = None \<longrightarrow> the (compute s0) ! r = None)"
proof -
  note I = computeRun_inv[OF fr run]
  have core: "coreInv (cost s0) s" and loop: "loopInv s"
    using I nc by (simp_all add: outerInv_def allCovered_def)
  obtain s' where S: "iterate s = Some s'" "list_all (\<lambda>b. b) (colCovered s')"
    "assignLoop s = Some s'" "starredZeros s' = starredZeros s"
    using infeasible_step[OF core loop pl inf] by blast
  have cp: "compute s0 = Some (starredZeros s)" using I S(3,4) by (simp add: compute_def)
  show ?thesis using S cp by simp
qed

theorem infeasible_exit_witness:
  "fresh (solver 1 1 2 (\<lambda>r c. [[1, 2]] ! r ! c)) \<and>
   computeRun (solver 1 1 2 (\<lambda>r c. [[1, 2]] ! r ! c)) 0
     (initialise (solver 1 1 2 (\<lambda>r c. [[1, 2]] ! r ! c))) \<and>
   \<not> list_all (\<lambda>b. b) (colCovered (initialise (solver 1 1 2 (\<lambda>r c. [[1, 2]] ! r ! c)))) \<and>
   primeLoop (initialise (solver 1 1 2 (\<lambda>r c. [[1, 2]] ! r ! c))) =
     Some (fst (the (primeLoop (initialise (solver 1 1 2 (\<lambda>r c. [[1, 2]] ! r ! c))))), None) \<and>
   fst (findMinUncoveredCost (rebalanceWorkers (fillColInds
     (fst (the (primeLoop (initialise (solver 1 1 2 (\<lambda>r c. [[1, 2]] ! r ! c))))))))) = Inf \<and>
   compute (solver 1 1 2 (\<lambda>r c. [[1, 2]] ! r ! c)) =
     Some (starredZeros (initialise (solver 1 1 2 (\<lambda>r c. [[1, 2]] ! r ! c))))"
proof -
  define S where "S = solver 1 1 2 (\<lambda>r c. [[1, 2]] ! r ! c)"
  have fr: "fresh S" unfolding S_def by (rule solver_fresh)
  have nc: "\<not> list_all (\<lambda>b. b) (colCovered (initialise S))" unfolding S_def by code_simp
  have pl: "primeLoop (initialise S) = Some (fst (the (primeLoop (initialise S))), None)"
    unfolding S_def by code_simp
  have inf: "fst (findMinUncoveredCost (rebalanceWorkers (fillColInds
     (fst (the (primeLoop (initialise S))))))) = Inf"
    unfolding S_def by code_simp
  from infeasible_exit[OF fr run_entry nc pl inf]
  have "compute S = Some (starredZeros (initialise S))" by blast
  then show ?thesis using fr run_entry[of S] nc pl inf unfolding S_def by blast
qed

subsection \<open>A solver on which no cost was set\<close>

text \<open>
  Claim C10, as stated, fails for a solver of dimension 0: \<open>all_of\<close> over the empty
  \<open>colCovered\<close> is true, so \<open>compute\<close> returns the empty vector without calling
  \<open>iterate\<close>.
\<close>

theorem unset_solver_counterexample:
  "\<not> (singlePass (Hungarian 1 0 0) \<and>
      compute (Hungarian 1 0 0) = Some (replicate (max 0 0) None))"
proof -
  have "list_all (\<lambda>b. b) (colCovered (initialise (Hungarian 1 0 0)))" by code_simp
  then show ?thesis by (simp add: singlePass_def)
qed

text \<open>
  Claim C10, amended. When \<open>compute\<close> is called on a solver of dimension
  \<open>max rows columns > 0\<close> on which \<open>setCost\<close> was never called, it ends after a single call
  of \<open>iterate\<close> and returns a vector of length \<open>max rows columns\<close> whose entries are all
  the unassigned marker.
\<close>

theorem unset_solver_single_pass:
  assumes pos: "0 < max rows columns"
  shows "singlePass (Hungarian hc rows columns) \<and>
         compute (Hungarian hc rows columns) = Some (replicate (max rows columns) None)"
proof -
  let ?s0 = "Hungarian hc rows columns"
  let ?n = "max rows columns"
  define s where "s = initialise ?s0"
  have fr: "fresh ?s0" by (rule Hungarian_fresh)
  have n0: "numRow ?s0 = ?n" and c0: "cost ?s0 = replicate (?n * ?n) Inf"
    by (simp_all add: Hungarian_def Let_def)
  note E = initialise_spec[OF fr, folded s_def]
  have nr: "numRow s = ?n" using E(2) n0 by simp
  have core: "coreInv (cost ?s0) s" by (rule E(4))
  have wf: "wf s" and ze: "zerosExact s" and onz: "starsOnZeros s"
    and red: "reducedFrom (cost ?s0) s"
    using core by (simp_all add: coreInv_def)
  have nc: "numCol s = ?n" and lens: "length (colCovered s) = ?n" "length (starredZeros s) = ?n"
    using wf nr by (simp_all add: wf_def)
  have inf: "cell s r c = Inf" if "r < ?n" "c < ?n" for r c
  proof -
    have "cost ?s0 ! (r * ?n + c) = Inf" using idx_less[OF that] by (simp add: c0)
    then show ?thesis using reduced_finite[OF red, of r c] that by (simp add: nr nc)
  qed
  have nostar: "starredZeros s ! r = None" if "r < ?n" for r
  proof (cases "starredZeros s ! r")
    case (Some c)
    then have "c < ?n \<and> cell s r c = Fin 0"
      using onz that unfolding starsOnZeros_def nr nc by blast
    then show ?thesis using inf[OF that, of c] by simp
  qed simp
  have "\<not> colCovered s ! 0" using E(5) pos nostar by (simp add: nc nr)
  then have opn: "\<not> list_all (\<lambda>b. b) (colCovered s)"
    using pos lens by (auto simp: list_all_length)
  have loop: "loopInv s" using E(1) opn by (simp add: outerInv_def allCovered_def)
  have nz: "findUncoveredZero s = None"
  proof (cases "findUncoveredZero s")
    case (Some rc)
    obtain r c where rc: "rc = (r, c)" by (cases rc) auto
    note f = uncoveredZero_facts[OF core Some[unfolded rc]]
    then show ?thesis using inf[of r c] by (simp add: nr nc)
  qed simp
  have pl: "primeLoop s = Some (s, None)" using nz by (subst primeLoop.simps) simp
  obtain h sC where F: "findMinUncoveredCost (rebalanceWorkers (fillColInds s)) = (h, sC)"
    "isMinUncovered s h"
    using noZero_search[OF wf] by blast
  have "h = Inf"
  proof (rule ccontr)
    assume "h \<noteq> Inf"
    then obtain r c where "r < numRow s" "c < numCol s" "cell s r c = h"
      using F(2) unfolding isMinUncovered_def by blast
    then show False using inf[of r c] \<open>h \<noteq> Inf\<close> by (simp add: nr nc)
  qed
  then have hinf: "fst (findMinUncoveredCost (rebalanceWorkers (fillColInds s))) = Inf"
    by (simp add: F(1))
  obtain s' where S: "iterate s = Some s'" "list_all (\<lambda>b. b) (colCovered s')"
    "assignLoop s = Some s'" "starredZeros s' = starredZeros s"
    using infeasible_step[OF core loop pl hinf] by blast
  have "starredZeros s = replicate ?n None"
    by (rule nth_equalityI) (simp_all add: lens nostar)
  then have "compute ?s0 = Some (replicate ?n None)"
    using S(3,4) by (simp add: compute_def s_def[symmetric])
  moreover have "singlePass ?s0"
    unfolding singlePass_def s_def[symmetric] using opn S(1,2) by blast
  ultimately show ?thesis by simp
qed

theorem unset_solver_single_pass_witness:
  "0 < max (2::nat) 3 \<and> singlePass (Hungarian 4 2 3) \<and>
   compute (Hungarian 4 2 3) = Some (replicate (max 2 3) None)"
  using unset_solver_single_pass[of 2 3 4] by simp

subsection \<open>The solver over a cost type that rounds\<close>

text \<open>With a cost type that does not round, the functions are those of exact arithmetic.\<close>

lemma minus_fl_Fin: "minus_fl Fin a h = minus_T a h"
  by (cases a) simp_all

lemma plus_fl_Fin: "plus_fl Fin a h = plus_T a h"
  by (cases a) simp_all

lemma reduceCosts_fl_Fin: "reduceCosts_fl Fin s = reduceCosts s"
proof -
  have m: "minus_fl Fin = minus_T" by (intro ext) (rule minus_fl_Fin)
  have "reduceRow_fl Fin = reduceRow"
    by (intro ext) (simp add: reduceRow_fl_def reduceRow_def minus_fl_Fin cong: ecost.case_cong)
  then show ?thesis by (simp add: reduceCosts_fl_def reduceCosts_def m)
qed

lemma updateCosts_fl_Fin: "updateCosts_fl Fin h s = updateCosts h s"
proof -
  have m: "minus_fl Fin = minus_T" by (intro ext) (rule minus_fl_Fin)
  have p: "plus_fl Fin = plus_T" by (intro ext) (rule plus_fl_Fin)
  have c: "updateCell_fl Fin = updateCell"
    by (intro ext) (simp add: updateCell_fl_def updateCell_def m)
  have r: "updateCostsRow_fl Fin = updateCostsRow"
    by (intro ext) (simp add: updateCostsRow_fl_def updateCostsRow_def c p)
  have w: "updateCostsWorker_fl Fin = updateCostsWorker"
    by (intro ext) (simp add: updateCostsWorker_fl_def updateCostsWorker_def r)
  show ?thesis by (simp add: updateCosts_fl_def updateCosts_def w)
qed

lemma iterate_fl_Fin: "iterate_fl Fin s = iterate s"
proof -
  have nz: "noZero_fl Fin = noZero"
    by (intro ext) (simp add: noZero_fl_def noZero_def updateCosts_fl_Fin split: prod.splits ecost.splits)
  show ?thesis by (simp only: iterate_fl_def iterate_def nz)
qed

lemma exactRun_Fin: "exactRun Fin s0"
  by (simp add: exactRun_def initialise_fl_def initialise_def reduceCosts_fl_Fin iterate_fl_Fin)





subsection \<open>The result of \<open>compute\<close> over a cost type that rounds\<close>









subsection \<open>The binary formats\<close>

text \<open>
  \<open>exponent x\<close> is the exponent of the binade of \<open>x\<close>, and some values of the two
  formats: the nearest \<open>float\<close> and \<open>double\<close> to one tenth, ties that go to the even
  neighbour, the greatest \<open>float\<close>, the least value that overflows, and the least
  positive \<open>float\<close>.
\<close>

lemma bitLength_pos: "0 < n \<Longrightarrow> 0 < bitLength n"
proof (induction n rule: bitLength.induct)
  case (1 n)
  show ?case
  proof (cases "n div 2 \<le> 0")
    case True
    then have "bitLength (n div 2) = 0" by (simp add: bitLength.simps)
    then show ?thesis using 1(2) by (simp add: bitLength.simps[of n])
  next
    case False
    then have "0 < bitLength (n div 2)" using 1 by simp
    then show ?thesis using 1(2) by (simp add: bitLength.simps[of n])
  qed
qed

lemma bitLength_bounds:
  "0 < n \<Longrightarrow> 2 ^ nat (bitLength n - 1) \<le> n \<and> n < 2 ^ nat (bitLength n)"
proof (induction n rule: bitLength.induct)
  case (1 n)
  show ?case
  proof (cases "n = 1")
    case True
    have "bitLength (1 div 2) = 0" by (simp add: bitLength.simps)
    then have "bitLength 1 = 1" by (simp add: bitLength.simps[of 1])
    then show ?thesis using True by simp
  next
    case False
    then have h: "0 < n div 2" using 1(2) by simp
    have IH: "2 ^ nat (bitLength (n div 2) - 1) \<le> n div 2 \<and> n div 2 < 2 ^ nat (bitLength (n div 2))"
      using 1 h by simp
    have b: "bitLength n = 1 + bitLength (n div 2)" using 1(2) by (simp add: bitLength.simps[of n])
    have p: "0 < bitLength (n div 2)" by (rule bitLength_pos[OF h])
    have e1: "nat (bitLength n - 1) = Suc (nat (bitLength (n div 2) - 1))" using b p by simp
    have e2: "nat (bitLength n) = Suc (nat (bitLength (n div 2)))" using b p by simp
    have "2 * 2 ^ nat (bitLength (n div 2) - 1) \<le> n" using IH by linarith
    moreover have "n < 2 * 2 ^ nat (bitLength (n div 2))" using IH by linarith
    ultimately show ?thesis unfolding e1 e2 by simp
  qed
qed

lemma exponent_bounds:
  assumes "x \<noteq> 0"
  shows "2 powi (exponent x) \<le> \<bar>x\<bar> \<and> \<bar>x\<bar> < 2 powi (exponent x + 1)"
proof (cases "1 \<le> \<bar>x\<bar>")
  case True
  define n where "n = \<lfloor>\<bar>x\<bar>\<rfloor>"
  have n: "0 < n" using True by (simp add: n_def)
  have e: "exponent x = bitLength n - 1" using True by (simp add: exponent_def n_def)
  have p: "0 < bitLength n" by (rule bitLength_pos[OF n])
  note B = bitLength_bounds[OF n]
  have lo: "(2::real) ^ nat (bitLength n - 1) \<le> of_int n"
    using B by (metis of_int_le_iff of_int_numeral of_int_power)
  have hi: "of_int n + 1 \<le> (2::real) ^ nat (bitLength n)"
  proof -
    have "n + 1 \<le> 2 ^ nat (bitLength n)" using B by simp
    then have "of_int (n + 1) \<le> (of_int (2 ^ nat (bitLength n)) :: real)" by (simp only: of_int_le_iff)
    then show ?thesis by simp
  qed
  have fl: "of_int n \<le> \<bar>x\<bar>" "\<bar>x\<bar> < of_int n + 1" unfolding n_def by linarith+
  have 1: "2 powi (exponent x) = (2::real) ^ nat (bitLength n - 1)"
    using p by (simp add: e power_int_def)
  have 2: "2 powi (exponent x + 1) = (2::real) ^ nat (bitLength n)"
    using p by (simp add: e power_int_def)
  show ?thesis unfolding 1 2 using lo hi fl by linarith
next
  case False
  define z where "z = 1 / \<bar>x\<bar>"
  define n where "n = \<lceil>z\<rceil> - 1"
  have ax: "0 < \<bar>x\<bar>" "\<bar>x\<bar> < 1" using assms False by simp_all
  have z: "1 < z" using ax by (simp add: z_def)
  have n: "0 < n" using z unfolding n_def by linarith
  have e: "exponent x = - bitLength n" using False by (simp add: exponent_def n_def z_def)
  have p: "0 < bitLength n" by (rule bitLength_pos[OF n])
  note B = bitLength_bounds[OF n]
  have lo: "(2::real) ^ nat (bitLength n - 1) \<le> of_int n"
    using B by (metis of_int_le_iff of_int_numeral of_int_power)
  have hi: "of_int n + 1 \<le> (2::real) ^ nat (bitLength n)"
  proof -
    have "n + 1 \<le> 2 ^ nat (bitLength n)" using B by simp
    then have "of_int (n + 1) \<le> (of_int (2 ^ nat (bitLength n)) :: real)" by (simp only: of_int_le_iff)
    then show ?thesis by simp
  qed
  have cl: "of_int n < z" "z \<le> of_int n + 1" unfolding n_def by linarith+
  have zl: "(2::real) ^ nat (bitLength n - 1) < z" and zu: "z \<le> (2::real) ^ nat (bitLength n)"
    using lo hi cl by linarith+
  have xz: "\<bar>x\<bar> = 1 / z" using ax by (simp add: z_def)
  have 1: "2 powi (exponent x) = 1 / (2::real) ^ nat (bitLength n)"
    using p by (simp add: e power_int_def field_simps)
  have 2: "2 powi (exponent x + 1) = 1 / (2::real) ^ nat (bitLength n - 1)"
  proof (cases "bitLength n = 1")
    case True
    then show ?thesis by (simp add: e)
  next
    case F: False
    then have "- bitLength n + 1 < 0" using p by simp
    moreover have "nat (bitLength n - 1) = nat (- (- bitLength n + 1))" by simp
    ultimately show ?thesis by (simp add: e power_int_def field_simps)
  qed
  have a: "1 / (2::real) ^ nat (bitLength n) \<le> 1 / z"
    using zu z by (simp add: frac_le)
  have b: "1 / z < 1 / (2::real) ^ nat (bitLength n - 1)"
    using zl by (simp add: frac_less2)
  show ?thesis unfolding 1 2 xz using a b by simp
qed

lemma binary32_samples:
  "binary32 (1 / 10) = Fin (13421773 / 2 ^ 27)"
  "binary32 (2 ^ 24 + 1) = Fin (2 ^ 24)"
  "binary32 (2 ^ 24 + 3) = Fin (2 ^ 24 + 4)"
  "binary32 (2 ^ 128 - 2 ^ 104) = Fin (2 ^ 128 - 2 ^ 104)"
  "binary32 (2 ^ 128 - 2 ^ 103) = Inf"
  "binary32 (1 / 2 ^ 149) = Fin (1 / 2 ^ 149)"
  "binary32 (1 / 2 ^ 150) = Fin 0"
  by (simp_all add: binary32_def ieee_def exponent_def roundEven_def bitLength.simps Let_def)

lemma binary64_samples:
  "binary64 (1 / 10) = Fin (3602879701896397 / 2 ^ 55)"
  "binary64 (2 ^ 53 + 1) = Fin (2 ^ 53)"
  "binary64 (2 ^ 53 + 3) = Fin (2 ^ 53 + 4)"
  by (simp_all add: binary64_def ieee_def exponent_def roundEven_def bitLength.simps Let_def)

subsection \<open>The size of the thread pool\<close>

text \<open>
  Outside the search for the minimum and the cost update, no function reads the thread
  pool or its vectors: each commutes with a change of these three members.
\<close>

lemma workFrame_setWorkers: "workFrame (setWorkers w wr wc s) = workFrame s"
  by (simp add: workFrame_def setWorkers_def)

lemma workFrame_eq_setWorkers:
  assumes "workFrame s = workFrame t"
  shows "t = setWorkers (workers t) (workerRows t) (workerCosts t) s"
proof -
  have "setWorkers (workers t) (workerRows t) (workerCosts t) (workFrame s)
        = setWorkers (workers t) (workerRows t) (workerCosts t) (workFrame t)"
    using assms by simp
  then show ?thesis by (simp add: workFrame_def setWorkers_def)
qed

lemma setWorkers_fields:
  "numCol (setWorkers w wr wc s) = numCol s" "numRow (setWorkers w wr wc s) = numRow s"
  "colCovered (setWorkers w wr wc s) = colCovered s"
  "rowCovered (setWorkers w wr wc s) = rowCovered s"
  "cost (setWorkers w wr wc s) = cost s" "zeros (setWorkers w wr wc s) = zeros s"
  "primedZeros (setWorkers w wr wc s) = primedZeros s"
  "starredZeros (setWorkers w wr wc s) = starredZeros s"
  "rowSequence (setWorkers w wr wc s) = rowSequence s"
  "colSequence (setWorkers w wr wc s) = colSequence s"
  "colInds (setWorkers w wr wc s) = colInds s"
  "workers (setWorkers w wr wc s) = w" "workerRows (setWorkers w wr wc s) = wr"
  "workerCosts (setWorkers w wr wc s) = wc"
  by (simp_all add: setWorkers_def)

lemma setWorkers_update:
  "(setWorkers w wr wc s)\<lparr>primedZeros := p\<rparr> = setWorkers w wr wc (s\<lparr>primedZeros := p\<rparr>)"
  "(setWorkers w wr wc s)\<lparr>rowCovered := rc\<rparr> = setWorkers w wr wc (s\<lparr>rowCovered := rc\<rparr>)"
  "(setWorkers w wr wc s)\<lparr>colCovered := cc\<rparr> = setWorkers w wr wc (s\<lparr>colCovered := cc\<rparr>)"
  "(setWorkers w wr wc s)\<lparr>rowSequence := rs\<rparr> = setWorkers w wr wc (s\<lparr>rowSequence := rs\<rparr>)"
  "(setWorkers w wr wc s)\<lparr>colSequence := cs\<rparr> = setWorkers w wr wc (s\<lparr>colSequence := cs\<rparr>)"
  "(setWorkers w wr wc s)\<lparr>cost := co\<rparr> = setWorkers w wr wc (s\<lparr>cost := co\<rparr>)"
  "(setWorkers w wr wc s)\<lparr>zeros := zs\<rparr> = setWorkers w wr wc (s\<lparr>zeros := zs\<rparr>)"
  "(setWorkers w wr wc s)\<lparr>colInds := ci\<rparr> = setWorkers w wr wc (s\<lparr>colInds := ci\<rparr>)"
  by (simp_all add: setWorkers_def)

lemma cell_setWorkers: "cell (setWorkers w wr wc s) = cell s"
  by (simp add: cell_def setWorkers_def fun_eq_iff)

lemma reduceCosts_setWorkers:
  "reduceCosts (setWorkers w wr wc s) = setWorkers w wr wc (reduceCosts s)"
  by (simp add: reduceCosts_def setWorkers_def Let_def split: prod.splits)

lemma starCell_setWorkers:
  "starCell row col (setWorkers w wr wc s) = setWorkers w wr wc (starCell row col s)"
  by (simp add: starCell_def cell_setWorkers Let_def) (simp add: setWorkers_def)

lemma fold_starCell_setWorkers:
  "fold (starCell row) cols (setWorkers w wr wc s) = setWorkers w wr wc (fold (starCell row) cols s)"
  by (induction cols arbitrary: s) (simp_all add: starCell_setWorkers)

lemma fold_starRows_setWorkers:
  "fold (\<lambda>row. fold (starCell row) cols) rows (setWorkers w wr wc s)
     = setWorkers w wr wc (fold (\<lambda>row. fold (starCell row) cols) rows s)"
  by (induction rows arbitrary: s) (simp_all add: fold_starCell_setWorkers)

lemma starZeros_setWorkers:
  "starZeros (setWorkers w wr wc s) = setWorkers w wr wc (starZeros s)"
  by (simp add: starZeros_def setWorkers_fields fold_starRows_setWorkers)

lemma coverStarred_setWorkers:
  "coverStarred (setWorkers w wr wc s) = setWorkers w wr wc (coverStarred s)"
  by (simp add: coverStarred_def setWorkers_def Let_def)

lemma initialise_setWorkers:
  "initialise (setWorkers w wr wc s) = setWorkers w wr wc (initialise s)"
  by (simp add: initialise_def reduceCosts_setWorkers starZeros_setWorkers coverStarred_setWorkers)

lemma findUncoveredZeroFrom_setWorkers:
  "findUncoveredZeroFrom (setWorkers w wr wc s) rows = findUncoveredZeroFrom s rows"
  by (induction rows) (simp_all add: setWorkers_fields split: option.splits)

lemma findUncoveredZero_setWorkers:
  "findUncoveredZero (setWorkers w wr wc s) = findUncoveredZero s"
  by (simp add: findUncoveredZero_def findUncoveredZeroFrom_setWorkers setWorkers_fields)

lemma primeLoop_setWorkers:
  assumes "primeLoop s = Some (s1, x)"
  shows "primeLoop (setWorkers w wr wc s) = Some (setWorkers w wr wc s1, x)"
proof -
  have "primeLoop (setWorkers w wr wc s) = Some (setWorkers w wr wc (fst (s1, x)), snd (s1, x))"
  proof (rule primeLoop.raw_induct[where
        P = "\<lambda>s res. primeLoop (setWorkers w wr wc s) = Some (setWorkers w wr wc (fst res), snd res)",
        OF _ assms])
    fix f :: "hungarian \<Rightarrow> (hungarian \<times> (nat \<times> nat) option) option" and s res
    assume IH: "\<And>x y. f x = Some y \<Longrightarrow>
                  primeLoop (setWorkers w wr wc x) = Some (setWorkers w wr wc (fst y), snd y)"
      and eq: "(case findUncoveredZero s of None \<Rightarrow> Some (s, None)
         | Some rc \<Rightarrow>
             let r = fst rc; c = snd rc;
                 s1 = s\<lparr>primedZeros := (primedZeros s)[r := c]\<rparr>
             in case starredZeros s1 ! r of None \<Rightarrow> Some (s1, Some (r, c))
                | Some c0 \<Rightarrow>
                    f (s1\<lparr>rowCovered := (rowCovered s1)[r := True],
                           colCovered := (colCovered s1)[c0 := False]\<rparr>)) = Some res"
    show "primeLoop (setWorkers w wr wc s) = Some (setWorkers w wr wc (fst res), snd res)"
    proof (cases "findUncoveredZero s")
      case None
      then have "res = (s, None)" using eq by simp
      then show ?thesis
        using None by (subst primeLoop.simps) (simp add: findUncoveredZero_setWorkers)
    next
      case (Some rc)
      obtain r c where rc: "rc = (r, c)" by (cases rc) auto
      let ?s1 = "s\<lparr>primedZeros := (primedZeros s)[r := c]\<rparr>"
      show ?thesis
      proof (cases "starredZeros s ! r")
        case None
        then have "res = (?s1, Some (r, c))" using eq Some rc by (simp add: Let_def)
        then show ?thesis
          using None Some rc
          by (subst primeLoop.simps)
             (simp add: findUncoveredZero_setWorkers Let_def setWorkers_fields setWorkers_update)
      next
        case (Some c0)
        let ?s2 = "?s1\<lparr>rowCovered := (rowCovered ?s1)[r := True],
                        colCovered := (colCovered ?s1)[c0 := False]\<rparr>"
        have "f ?s2 = Some res" using eq \<open>findUncoveredZero s = Some rc\<close> rc Some
          by (simp add: Let_def)
        from IH[OF this]
        have "primeLoop (setWorkers w wr wc ?s2) = Some (setWorkers w wr wc (fst res), snd res)" .
        then show ?thesis
          using Some \<open>findUncoveredZero s = Some rc\<close> rc
          by (subst primeLoop.simps)
             (simp add: findUncoveredZero_setWorkers Let_def setWorkers_fields setWorkers_update)
      qed
    qed
  qed
  then show ?thesis by simp
qed

lemma findStarredZeroInCol_setWorkers:
  "findStarredZeroInCol (setWorkers w wr wc s) c = findStarredZeroInCol s c"
  by (simp add: findStarredZeroInCol_def setWorkers_fields)

lemma followChain_setWorkers:
  assumes "followChain s c = Some s1"
  shows "followChain (setWorkers w wr wc s) c = Some (setWorkers w wr wc s1)"
proof (rule followChain.raw_induct[where
      P = "\<lambda>s c s1. followChain (setWorkers w wr wc s) c = Some (setWorkers w wr wc s1)",
      OF _ assms])
  fix f :: "hungarian \<Rightarrow> nat \<Rightarrow> hungarian option" and s c s1
  assume IH: "\<And>x y z. f x y = Some z \<Longrightarrow>
                followChain (setWorkers w wr wc x) y = Some (setWorkers w wr wc z)"
    and eq: "(case findStarredZeroInCol s c of None \<Rightarrow> Some s
       | Some r \<Rightarrow> f (s\<lparr>rowSequence := rowSequence s @ [r],
                         colSequence := colSequence s @ [primedZeros s ! r]\<rparr>)
                      (primedZeros s ! r)) = Some s1"
  show "followChain (setWorkers w wr wc s) c = Some (setWorkers w wr wc s1)"
  proof (cases "findStarredZeroInCol s c")
    case None
    then have "s1 = s" using eq by simp
    then show ?thesis
      using None by (subst followChain.simps) (simp add: findStarredZeroInCol_setWorkers)
  next
    case (Some r)
    let ?s2 = "s\<lparr>rowSequence := rowSequence s @ [r],
                  colSequence := colSequence s @ [primedZeros s ! r]\<rparr>"
    have "f ?s2 (primedZeros s ! r) = Some s1" using eq Some by simp
    from IH[OF this]
    have "followChain (setWorkers w wr wc ?s2) (primedZeros s ! r) = Some (setWorkers w wr wc s1)" .
    then show ?thesis
      using Some
      by (subst followChain.simps)
         (simp add: findStarredZeroInCol_setWorkers setWorkers_fields setWorkers_update)
  qed
qed

lemma starSequence_setWorkers:
  "starSequence (setWorkers w wr wc s) = setWorkers w wr wc (starSequence s)"
  by (simp add: starSequence_def setWorkers_def)

lemma recover_setWorkers:
  "recover (setWorkers w wr wc s) = setWorkers w wr wc (recover s)"
  by (simp add: recover_def setWorkers_def Let_def)

lemma augment_setWorkers:
  assumes "augment r c s = Some s1"
  shows "augment r c (setWorkers w wr wc s) = Some (setWorkers w wr wc s1)"
proof -
  obtain s2 where f: "followChain (s\<lparr>rowSequence := [r], colSequence := [c]\<rparr>) c = Some s2"
    and s1: "s1 = recover (starSequence s2)"
    using assms by (auto simp: augment_def)
  have "(setWorkers w wr wc s)\<lparr>rowSequence := [r], colSequence := [c]\<rparr>
          = setWorkers w wr wc (s\<lparr>rowSequence := [r], colSequence := [c]\<rparr>)"
    by (simp add: setWorkers_def)
  then show ?thesis
    using followChain_setWorkers[OF f, of w wr wc]
    by (simp add: augment_def s1 starSequence_setWorkers recover_setWorkers)
qed

lemma updateCell_setWorkers:
  "updateCell h row col (setWorkers w wr wc s) = setWorkers w wr wc (updateCell h row col s)"
  by (simp add: updateCell_def cell_setWorkers Let_def) (simp add: setWorkers_def)

lemma fold_updateCell_setWorkers:
  "fold (updateCell h row) cols (setWorkers w wr wc s)
     = setWorkers w wr wc (fold (updateCell h row) cols s)"
  by (induction cols arbitrary: s) (simp_all add: updateCell_setWorkers)

lemma updateCostsRow_setWorkers:
  "updateCostsRow h row (setWorkers w wr wc s) = setWorkers w wr wc (updateCostsRow h row s)"
  by (simp add: updateCostsRow_def Let_def setWorkers_fields setWorkers_update
      fold_updateCell_setWorkers)

lemma fold_updateCostsRow_setWorkers:
  "fold (updateCostsRow h) rows (setWorkers w wr wc s)
     = setWorkers w wr wc (fold (updateCostsRow h) rows s)"
  by (induction rows arbitrary: s) (simp_all add: updateCostsRow_setWorkers)

lemma workFrame_fields:
  assumes "workFrame s' = workFrame s"
  shows "numCol s' = numCol s" and "numRow s' = numRow s"
    and "colCovered s' = colCovered s" and "rowCovered s' = rowCovered s"
    and "cost s' = cost s" and "zeros s' = zeros s"
    and "primedZeros s' = primedZeros s" and "starredZeros s' = starredZeros s"
    and "rowSequence s' = rowSequence s" and "colSequence s' = colSequence s"
    and "colInds s' = colInds s"
proof -
  have f: "f (workFrame s') = f (workFrame s)" for f :: "hungarian \<Rightarrow> 'b"
    using assms by simp
  show "numCol s' = numCol s" using f[of numCol] by (simp add: workFrame_def)
  show "numRow s' = numRow s" using f[of numRow] by (simp add: workFrame_def)
  show "colCovered s' = colCovered s" using f[of colCovered] by (simp add: workFrame_def)
  show "rowCovered s' = rowCovered s" using f[of rowCovered] by (simp add: workFrame_def)
  show "cost s' = cost s" using f[of cost] by (simp add: workFrame_def)
  show "zeros s' = zeros s" using f[of zeros] by (simp add: workFrame_def)
  show "primedZeros s' = primedZeros s" using f[of primedZeros] by (simp add: workFrame_def)
  show "starredZeros s' = starredZeros s" using f[of starredZeros] by (simp add: workFrame_def)
  show "rowSequence s' = rowSequence s" using f[of rowSequence] by (simp add: workFrame_def)
  show "colSequence s' = colSequence s" using f[of colSequence] by (simp add: workFrame_def)
  show "colInds s' = colInds s" using f[of colInds] by (simp add: workFrame_def)
qed

text \<open>
  The exit of \<open>iterate\<close> without an uncovered zero: the minimum that the workers find
  does not depend on the partition of the rows, and neither does the cost update.
\<close>

lemma noZero_workFrame:
  assumes wfs: "wf s" and wft: "wf t" and eq: "workFrame s = workFrame t"
  shows "workFrame (noZero s) = workFrame (noZero t)"
proof -
  note F = workFrame_fields[OF eq]
  obtain hs sC where s: "findMinUncoveredCost (rebalanceWorkers (fillColInds s)) = (hs, sC)"
    and ms: "isMinUncovered s hs" and sfs: "scratchFrame sC = scratchFrame s"
    and cis: "colInds sC = filter (\<lambda>col. \<not> colCovered s ! col) [0..<numCol s]"
    and ps: "rowPartition (workers s) (numRow s) (workerRows sC)"
    by (rule noZero_search[OF wfs])
  obtain ht tC where t: "findMinUncoveredCost (rebalanceWorkers (fillColInds t)) = (ht, tC)"
    and mt: "isMinUncovered t ht" and sft: "scratchFrame tC = scratchFrame t"
    and cit: "colInds tC = filter (\<lambda>col. \<not> colCovered t ! col) [0..<numCol t]"
    and pt: "rowPartition (workers t) (numRow t) (workerRows tC)"
    by (rule noZero_search[OF wft])
  have "isMinUncovered t hs"
    using ms isMinUncovered_cong[of s t hs] F by simp
  then have h: "ht = hs" using isMinUncovered_unique[OF mt] by simp
  have A: "workFrame x = (scratchFrame x)\<lparr>workers := 0, colInds := colInds x\<rparr>" for x
    by (simp add: workFrame_def scratchFrame_def)
  have B: "(scratchFrame x)\<lparr>workers := 0\<rparr> = scratchFrame (workFrame x)" for x
    by (simp add: workFrame_def scratchFrame_def)
  have ci: "colInds sC = colInds tC" using cis cit F by simp
  have "workFrame sC = (scratchFrame s)\<lparr>workers := 0, colInds := colInds sC\<rparr>"
    by (simp add: A sfs)
  also have "\<dots> = (scratchFrame (workFrame s))\<lparr>colInds := colInds sC\<rparr>"
    by (simp add: B[symmetric])
  also have "\<dots> = (scratchFrame (workFrame t))\<lparr>colInds := colInds tC\<rparr>"
    by (simp add: eq ci)
  also have "\<dots> = (scratchFrame t)\<lparr>workers := 0, colInds := colInds tC\<rparr>"
    by (simp add: B[symmetric])
  also have "\<dots> = workFrame tC" by (simp add: A sft)
  finally have C: "workFrame sC = workFrame tC" .
  define w wr wc where "w = workers tC" and "wr = workerRows tC" and "wc = workerCosts tC"
  have tC: "tC = setWorkers w wr wc sC"
    unfolding w_def wr_def wc_def by (rule workFrame_eq_setWorkers[OF C])
  show ?thesis
  proof (cases hs)
    case Inf
    have "noZero s = sC\<lparr>colCovered := replicate (length (colCovered sC)) True\<rparr>"
      by (simp add: noZero_def s Inf)
    moreover have "noZero t = tC\<lparr>colCovered := replicate (length (colCovered tC)) True\<rparr>"
      by (simp add: noZero_def t h Inf)
    ultimately show ?thesis
      by (simp add: tC setWorkers_fields setWorkers_update workFrame_setWorkers)
  next
    case (Fin x)
    note sf = scratchFrame_fields[OF sfs] and tf = scratchFrame_fields[OF sft]
    have ps': "rowPartition (workers sC) (numRow sC) (workerRows sC)" using ps sf by simp
    have pt': "rowPartition (workers tC) (numRow tC) (workerRows tC)" using pt tf by simp
    have "noZero s = fold (updateCostsRow x) [0..<numRow sC] sC"
      by (simp add: noZero_def s Fin updateCosts_flat[OF ps'])
    moreover have "noZero t = fold (updateCostsRow x) [0..<numRow tC] tC"
      by (simp add: noZero_def t h Fin updateCosts_flat[OF pt'])
    ultimately show ?thesis
      by (simp add: tC setWorkers_fields fold_updateCostsRow_setWorkers workFrame_setWorkers)
  qed
qed

lemma iterate_workFrame:
  assumes cs: "coreInv cs0 s" and ls: "loopInv s" and ct: "coreInv cs0 t" and lt: "loopInv t"
    and eq: "workFrame s = workFrame t" and its: "iterate s = Some s'" and itt: "iterate t = Some t'"
  shows "workFrame s' = workFrame t'"
proof -
  define w wr wc where "w = workers t" and "wr = workerRows t" and "wc = workerCosts t"
  have t: "t = setWorkers w wr wc s"
    unfolding w_def wr_def wc_def by (rule workFrame_eq_setWorkers[OF eq])
  obtain s1 x where p: "primeLoop s = Some (s1, x)" and rs: "primeResult cs0 s (s1, x)"
    using primeLoop_spec[OF cs ls] by (metis surj_pair)
  obtain rt where pt: "primeLoop t = Some rt" and rt: "primeResult cs0 t rt"
    using primeLoop_spec[OF ct lt] by blast
  have pt': "primeLoop t = Some (setWorkers w wr wc s1, x)"
    unfolding t by (rule primeLoop_setWorkers[OF p])
  then have rt': "rt = (setWorkers w wr wc s1, x)" using pt by simp
  have wf1: "wf s1" using rs by (simp add: primeResult_def coreInv_def)
  have wf2: "wf (setWorkers w wr wc s1)" using rt unfolding rt' by (simp add: primeResult_def coreInv_def)
  show ?thesis
  proof (cases x)
    case None
    have "s' = noZero s1" using its p None by (simp add: iterate_def)
    moreover have "t' = noZero (setWorkers w wr wc s1)" using itt pt' None by (simp add: iterate_def)
    ultimately show ?thesis
      using noZero_workFrame[OF wf1 wf2] by (simp add: workFrame_setWorkers)
  next
    case (Some rc)
    obtain r c where rc: "rc = (r, c)" by (cases rc) auto
    have a: "augment r c s1 = Some s'" using its p Some rc by (simp add: iterate_def)
    have "augment r c (setWorkers w wr wc s1) = Some t'"
      using itt pt' Some rc by (simp add: iterate_def)
    then have "t' = setWorkers w wr wc s'" using augment_setWorkers[OF a, of w wr wc] by simp
    then show ?thesis by (simp add: workFrame_setWorkers)
  qed
qed

text \<open>The loops of \<open>compute\<close> on two solvers that differ in the thread pool run in step.\<close>

lemma assignLoop_workFrame:
  assumes al: "assignLoop s = Some s'"
  shows "\<forall>t. outerInv cs0 s \<and> outerInv cs0 t \<and> workFrame s = workFrame t
           \<longrightarrow> (\<exists>t'. assignLoop t = Some t' \<and> workFrame s' = workFrame t')"
proof (rule assignLoop.raw_induct[where
      P = "\<lambda>s s'. \<forall>t. outerInv cs0 s \<and> outerInv cs0 t \<and> workFrame s = workFrame t
           \<longrightarrow> (\<exists>t'. assignLoop t = Some t' \<and> workFrame s' = workFrame t')", OF _ al])
  fix f :: "hungarian \<Rightarrow> hungarian option" and s s'
  assume IH: "\<And>x y. f x = Some y \<Longrightarrow>
                \<forall>t. outerInv cs0 x \<and> outerInv cs0 t \<and> workFrame x = workFrame t
                  \<longrightarrow> (\<exists>t'. assignLoop t = Some t' \<and> workFrame y = workFrame t')"
    and eq: "(if list_all (\<lambda>b. b) (colCovered s) then Some s
              else case iterate s of None \<Rightarrow> None | Some s' \<Rightarrow> f s') = Some s'"
  show "\<forall>t. outerInv cs0 s \<and> outerInv cs0 t \<and> workFrame s = workFrame t
           \<longrightarrow> (\<exists>t'. assignLoop t = Some t' \<and> workFrame s' = workFrame t')"
  proof (intro allI impI)
    fix t assume a: "outerInv cs0 s \<and> outerInv cs0 t \<and> workFrame s = workFrame t"
    then have os: "outerInv cs0 s" and ot: "outerInv cs0 t" and wf: "workFrame s = workFrame t"
      by simp_all
    have cc: "colCovered t = colCovered s" using workFrame_fields(3)[OF wf] by simp
    show "\<exists>t'. assignLoop t = Some t' \<and> workFrame s' = workFrame t'"
    proof (cases "list_all (\<lambda>b. b) (colCovered s)")
      case True
      then have "s' = s" using eq by simp
      moreover have "assignLoop t = Some t" using True cc by (simp add: assignLoop.simps)
      ultimately show ?thesis using wf by simp
    next
      case False
      then obtain s1 where it: "iterate s = Some s1" and nx: "f s1 = Some s'"
        using eq by (auto split: option.splits)
      have cs: "coreInv cs0 s" "loopInv s" using os False by (simp_all add: outerInv_def allCovered_def)
      have ct: "coreInv cs0 t" "loopInv t"
        using ot False cc by (simp_all add: outerInv_def allCovered_def)
      obtain s1' where "iterate s = Some s1'" "outerInv cs0 s1'" using iterate_spec[OF cs] by blast
      then have o1: "outerInv cs0 s1" using it by simp
      obtain t1 where itt: "iterate t = Some t1" and o2: "outerInv cs0 t1"
        using iterate_spec[OF ct] by blast
      have w1: "workFrame s1 = workFrame t1" by (rule iterate_workFrame[OF cs ct wf it itt])
      obtain t' where "assignLoop t1 = Some t'" "workFrame s' = workFrame t'"
        using IH[OF nx] o1 o2 w1 by blast
      moreover have "assignLoop t = assignLoop t1"
        using False cc itt by (subst assignLoop.simps) simp
      ultimately show ?thesis by simp
    qed
  qed
qed

lemma compute_workFrame:
  assumes fs: "fresh s0" and ft: "fresh t0" and eq: "workFrame s0 = workFrame t0"
  shows "\<exists>res. compute s0 = Some res \<and> compute t0 = Some res"
proof -
  have t0: "t0 = setWorkers (workers t0) (workerRows t0) (workerCosts t0) s0"
    by (rule workFrame_eq_setWorkers[OF eq])
  have "initialise t0 = setWorkers (workers t0) (workerRows t0) (workerCosts t0) (initialise s0)"
    by (subst t0) (rule initialise_setWorkers)
  then have wi: "workFrame (initialise s0) = workFrame (initialise t0)"
    by (simp add: workFrame_setWorkers)
  have c: "cost t0 = cost s0" using workFrame_fields(5)[OF eq] by simp
  have os: "outerInv (cost s0) (initialise s0)" by (rule initialise_spec(1)[OF fs])
  have ot: "outerInv (cost s0) (initialise t0)" using initialise_spec(1)[OF ft] c by simp
  obtain s' where s': "assignLoop (initialise s0) = Some s'" using assignLoop_spec[OF os] by blast
  obtain t' where t': "assignLoop (initialise t0) = Some t'" "workFrame s' = workFrame t'"
    using assignLoop_workFrame[OF s', of "cost s0"] os ot wi by blast
  have "starredZeros t' = starredZeros s'" using workFrame_fields(8)[OF t'(2)] by simp
  then show ?thesis using s' t'(1) by (simp add: compute_def)
qed

lemma setCost_setWorkers:
  "setCost r c v (setWorkers w wr wc s) = setWorkers w wr wc (setCost r c v s)"
  by (simp add: setCost_def setWorkers_def)

lemma fold_setCost_setWorkers:
  "fold (\<lambda>(r, c). setCost r c (f r c)) ps (setWorkers w wr wc s)
     = setWorkers w wr wc (fold (\<lambda>(r, c). setCost r c (f r c)) ps s)"
  by (induction ps arbitrary: s) (auto simp: setCost_setWorkers)

lemma solver_workFrame:
  "workFrame (solver hc rows columns m) = workFrame (solver hc' rows columns m)"
proof -
  have "Hungarian hc rows columns =
          setWorkers (max hc 1) (replicate (max hc 1 + 1) 0) (replicate (max hc 1) (Fin 0))
            (Hungarian hc' rows columns)"
    by (simp add: Hungarian_def setWorkers_def Let_def)
  then show ?thesis
    by (simp add: solver_def fold_setCost_setWorkers workFrame_setWorkers)
qed

subsection \<open>The size of the thread pool and a cost type that rounds\<close>

text \<open>
  The same for the solver over a cost type that rounds, whatever the rounding: the sizes of
  the vectors are kept, the cost update is a pass over the rows, and two solvers that
  differ in the thread pool run in step.
\<close>

lemma updateCell_fl_frame: "costFrame (updateCell_fl rnd h row col s) = costFrame s"
  by (simp add: updateCell_fl_def costFrame_def Let_def)

lemma updateCell_fl_lengths:
  "length (cost (updateCell_fl rnd h row col s)) = length (cost s)"
  "length (zeros (updateCell_fl rnd h row col s)) = length (zeros s)"
  by (simp_all add: updateCell_fl_def Let_def)

lemma fold_updateCell_fl_frame:
  "costFrame (fold (updateCell_fl rnd h row) cols s) = costFrame s"
  by (induction cols arbitrary: s) (simp_all add: updateCell_fl_frame)

lemma fold_updateCell_fl_lengths:
  "length (cost (fold (updateCell_fl rnd h row) cols s)) = length (cost s)"
  "length (zeros (fold (updateCell_fl rnd h row) cols s)) = length (zeros s)"
  by (induction cols arbitrary: s) (simp_all add: updateCell_fl_lengths)

lemma updateCostsRow_fl_frame: "costFrame (updateCostsRow_fl rnd h row s) = costFrame s"
  by (simp add: updateCostsRow_fl_def Let_def fold_updateCell_fl_frame) (simp add: costFrame_def)

lemma updateCostsRow_fl_lengths:
  "length (cost (updateCostsRow_fl rnd h row s)) = length (cost s)"
  "length (zeros (updateCostsRow_fl rnd h row s)) = length (zeros s)"
  by (simp_all add: updateCostsRow_fl_def Let_def fold_updateCell_fl_lengths transform_row_length)

lemma fold_updateCostsRow_fl_frame:
  "costFrame (fold (updateCostsRow_fl rnd h) rows s) = costFrame s"
  by (induction rows arbitrary: s) (simp_all add: updateCostsRow_fl_frame)

lemma fold_updateCostsRow_fl_lengths:
  "length (cost (fold (updateCostsRow_fl rnd h) rows s)) = length (cost s)"
  "length (zeros (fold (updateCostsRow_fl rnd h) rows s)) = length (zeros s)"
  by (induction rows arbitrary: s) (simp_all add: updateCostsRow_fl_lengths)

lemma fold_updateCostsWorker_fl_flat:
  assumes "\<forall>i<k. wr ! i \<le> wr ! (i + 1)" and "workerRows s = wr"
  shows "fold (updateCostsWorker_fl rnd h) [0..<k] s
           = fold (updateCostsRow_fl rnd h) [wr ! 0..<wr ! k] s"
  using assms(1)
proof (induction k)
  case 0
  then show ?case by simp
next
  case (Suc k)
  let ?s = "fold (updateCostsRow_fl rnd h) [wr ! 0..<wr ! k] s"
  have w: "workerRows ?s = wr"
    using costFrame_fields(11)[OF fold_updateCostsRow_fl_frame] assms(2) by simp
  have m: "wr ! 0 \<le> wr ! k" using Suc.prems
  proof (induction k)
    case 0
    then show ?case by simp
  next
    case (Suc k)
    then have "wr ! 0 \<le> wr ! k" by simp
    moreover have "wr ! k \<le> wr ! (k + 1)" using Suc.prems by simp
    ultimately show ?case by simp
  qed
  have k: "wr ! k \<le> wr ! (k + 1)" using Suc.prems by simp
  have "[wr ! 0..<wr ! Suc k] = [wr ! 0..<wr ! k] @ [wr ! k..<wr ! Suc k]"
    using m k by (metis Suc_eq_plus1 upt_add_eq_append le_Suc_ex)
  then show ?case using Suc w by (simp add: updateCostsWorker_fl_def)
qed

lemma updateCosts_fl_flat:
  assumes "rowPartition (workers s) (numRow s) (workerRows s)"
  shows "updateCosts_fl rnd h s = fold (updateCostsRow_fl rnd h) [0..<numRow s] s"
  using fold_updateCostsWorker_fl_flat[of "workers s" "workerRows s" s rnd h] assms
  by (simp add: updateCosts_fl_def rowPartition_def)

lemma updateCell_fl_setWorkers:
  "updateCell_fl rnd h row col (setWorkers w wr wc s)
     = setWorkers w wr wc (updateCell_fl rnd h row col s)"
  by (simp add: updateCell_fl_def cell_setWorkers Let_def) (simp add: setWorkers_def)

lemma fold_updateCell_fl_setWorkers:
  "fold (updateCell_fl rnd h row) cols (setWorkers w wr wc s)
     = setWorkers w wr wc (fold (updateCell_fl rnd h row) cols s)"
  by (induction cols arbitrary: s) (simp_all add: updateCell_fl_setWorkers)

lemma updateCostsRow_fl_setWorkers:
  "updateCostsRow_fl rnd h row (setWorkers w wr wc s)
     = setWorkers w wr wc (updateCostsRow_fl rnd h row s)"
  by (simp add: updateCostsRow_fl_def Let_def setWorkers_fields setWorkers_update
      fold_updateCell_fl_setWorkers)

lemma fold_updateCostsRow_fl_setWorkers:
  "fold (updateCostsRow_fl rnd h) rows (setWorkers w wr wc s)
     = setWorkers w wr wc (fold (updateCostsRow_fl rnd h) rows s)"
  by (induction rows arbitrary: s) (simp_all add: updateCostsRow_fl_setWorkers)

lemma reduceCosts_fl_setWorkers:
  "reduceCosts_fl rnd (setWorkers w wr wc s) = setWorkers w wr wc (reduceCosts_fl rnd s)"
  by (simp add: reduceCosts_fl_def setWorkers_def Let_def split: prod.splits)

lemma initialise_fl_setWorkers:
  "initialise_fl rnd (setWorkers w wr wc s) = setWorkers w wr wc (initialise_fl rnd s)"
  by (simp add: initialise_fl_def reduceCosts_fl_setWorkers starZeros_setWorkers
      coverStarred_setWorkers)

text \<open>The sizes of the vectors.\<close>

lemma reduceRow_fl_lengths:
  assumes "length cs = n * n" and "length colMin = n" and "row < n"
  shows "case reduceRow_fl rnd n row (cs, colMin) of
           (cs', colMin') \<Rightarrow> length cs' = n * n \<and> length colMin' = n"
proof -
  define h where "h = min_element (take n (drop (row * n) cs))"
  define cs' where "cs' = (case h of Inf \<Rightarrow> cs
     | Fin x \<Rightarrow> transform_row (\<lambda>a. minus_fl rnd a x) (row * n) n cs)"
  have l: "length cs' = n * n"
    using assms(1) by (cases h) (simp_all add: cs'_def transform_row_length)
  have "length (take n (drop (row * n) cs')) = n" by (rule row_slice_nth(2)[OF l assms(3) assms(3)])
  then have "length (map2 std_min (take n (drop (row * n) cs')) colMin) = n"
    using assms(2) by simp
  then show ?thesis
    using l by (simp add: reduceRow_fl_def Let_def h_def[symmetric] cs'_def[symmetric])
qed

lemma reduceCosts_fl_wf:
  assumes wf: "wf s"
  shows "wf (reduceCosts_fl rnd s)"
proof -
  let ?n = "numRow s"
  have n: "numCol s = ?n" and l0: "length (cost s) = ?n * ?n" using wf by (simp_all add: wf_def)
  define st where "st = fold (reduceRow_fl rnd ?n) [0..<?n] (cost s, replicate ?n Inf)"
  have "case st of (cs, colMin) \<Rightarrow> length cs = ?n * ?n \<and> length colMin = ?n"
    unfolding st_def
  proof (rule fold_invariant[where Q = "\<lambda>row. row < ?n"])
    show "\<And>x. x \<in> set [0..<?n] \<Longrightarrow> x < ?n" by simp
    show "case (cost s, replicate ?n Inf) of (cs, colMin) \<Rightarrow> length cs = ?n * ?n \<and> length colMin = ?n"
      using l0 by simp
    show "\<And>x st. x < ?n \<Longrightarrow> (case st of (cs, colMin) \<Rightarrow> length cs = ?n * ?n \<and> length colMin = ?n)
            \<Longrightarrow> (case reduceRow_fl rnd ?n x st of (cs, colMin) \<Rightarrow> length cs = ?n * ?n \<and> length colMin = ?n)"
    proof -
      fix x and st :: "ecost list \<times> ecost list"
      assume x: "x < ?n"
        and st: "case st of (cs, colMin) \<Rightarrow> length cs = ?n * ?n \<and> length colMin = ?n"
      obtain cs cm where p: "st = (cs, cm)" by (cases st) auto
      have "length cs = ?n * ?n" "length cm = ?n" using st by (simp_all add: p)
      from reduceRow_fl_lengths[OF this x, of rnd]
      show "case reduceRow_fl rnd ?n x st of (cs, colMin) \<Rightarrow> length cs = ?n * ?n \<and> length colMin = ?n"
        by (simp add: p)
    qed
  qed
  then obtain cs colMin where stp: "st = (cs, colMin)" and len: "length cs = ?n * ?n" "length colMin = ?n"
    by (cases st) auto
  define ys where "ys = finiteColMin colMin"
  have ylen: "length ys = ?n" using len by (simp add: ys_def finiteColMin_def)
  define C where "C = fold (\<lambda>row. transform_row2 (minus_fl rnd) ys (row * ?n) ?n) [0..<?n] cs"
  have "length C = ?n * ?n"
    unfolding C_def
  proof (rule fold_invariant[where Q = "\<lambda>row. row < ?n"])
    show "\<And>x. x \<in> set [0..<?n] \<Longrightarrow> x < ?n" by simp
    show "length cs = ?n * ?n" by (rule len(1))
    show "\<And>x cs. x < ?n \<Longrightarrow> length cs = ?n * ?n \<Longrightarrow>
            length (transform_row2 (minus_fl rnd) ys (x * ?n) ?n cs) = ?n * ?n"
    proof -
      fix x and cs :: "ecost list" assume a: "x < ?n" "length cs = ?n * ?n"
      have "x * ?n + ?n \<le> length cs"
        using a by (metis Suc_leI mult_Suc mult_le_mono1 add.commute)
      then show "length (transform_row2 (minus_fl rnd) ys (x * ?n) ?n cs) = ?n * ?n"
        using transform_row2_length[OF ylen, of "x * ?n" cs] a(2) by simp
    qed
  qed
  moreover have "reduceCosts_fl rnd s = s\<lparr>cost := C\<rparr>"
    by (simp add: reduceCosts_fl_def Let_def n st_def[symmetric] stp ys_def[symmetric] C_def)
  ultimately show ?thesis using wf by (simp add: wf_def)
qed

lemma starCell_wf: "wf s \<Longrightarrow> wf (starCell row col s)"
  by (simp add: starCell_def wf_def Let_def)

lemma starZeros_wf:
  assumes "wf s"
  shows "wf (starZeros s)"
proof -
  have 1: "wf (fold (starCell row) cols t)" if "wf t" for row cols t
    using that by (induction cols arbitrary: t) (simp_all add: starCell_wf)
  have 2: "wf (fold (\<lambda>row. fold (starCell row) cols) rows t)" if "wf t" for rows cols t
    using that by (induction rows arbitrary: t) (simp_all add: 1)
  show ?thesis unfolding starZeros_def by (rule 2[OF assms])
qed

lemma coverStarred_wf: "wf s \<Longrightarrow> wf (coverStarred s)"
  by (simp add: wf_def coverStarred_fields)

lemma initialise_fl_wf: "wf s \<Longrightarrow> wf (initialise_fl rnd s)"
  by (simp add: initialise_fl_def reduceCosts_fl_wf starZeros_wf coverStarred_wf)

lemma primeLoop_wf:
  assumes "primeLoop s = Some res"
  shows "wf s \<longrightarrow> wf (fst res)"
proof (rule primeLoop.raw_induct[where P = "\<lambda>s res. wf s \<longrightarrow> wf (fst res)", OF _ assms])
  fix f :: "hungarian \<Rightarrow> (hungarian \<times> (nat \<times> nat) option) option" and s res
  assume IH: "\<And>x y. f x = Some y \<Longrightarrow> wf x \<longrightarrow> wf (fst y)"
    and eq: "(case findUncoveredZero s of None \<Rightarrow> Some (s, None)
         | Some rc \<Rightarrow>
             let r = fst rc; c = snd rc;
                 s1 = s\<lparr>primedZeros := (primedZeros s)[r := c]\<rparr>
             in case starredZeros s1 ! r of None \<Rightarrow> Some (s1, Some (r, c))
                | Some c0 \<Rightarrow>
                    f (s1\<lparr>rowCovered := (rowCovered s1)[r := True],
                           colCovered := (colCovered s1)[c0 := False]\<rparr>)) = Some res"
  show "wf s \<longrightarrow> wf (fst res)"
  proof
    assume wf: "wf s"
    show "wf (fst res)"
    proof (cases "findUncoveredZero s")
      case None
      then show ?thesis using eq wf by auto
    next
      case (Some rc)
      obtain r c where rc: "rc = (r, c)" by (cases rc) auto
      let ?s1 = "s\<lparr>primedZeros := (primedZeros s)[r := c]\<rparr>"
      have wf1: "wf ?s1" using wf by (simp add: wf_def)
      show ?thesis
      proof (cases "starredZeros s ! r")
        case None
        then have "res = (?s1, Some (r, c))" using eq Some rc by (simp add: Let_def)
        then show ?thesis using wf1 by simp
      next
        case (Some c0)
        let ?s2 = "?s1\<lparr>rowCovered := (rowCovered ?s1)[r := True],
                        colCovered := (colCovered ?s1)[c0 := False]\<rparr>"
        have "f ?s2 = Some res" using eq \<open>findUncoveredZero s = Some rc\<close> rc Some
          by (simp add: Let_def)
        moreover have "wf ?s2" using wf by (simp add: wf_def)
        ultimately show ?thesis using IH by blast
      qed
    qed
  qed
qed

lemma followChain_wf:
  assumes "followChain s c = Some s1"
  shows "wf s \<longrightarrow> wf s1"
proof (rule followChain.raw_induct[where P = "\<lambda>s c s1. wf s \<longrightarrow> wf s1", OF _ assms])
  fix f :: "hungarian \<Rightarrow> nat \<Rightarrow> hungarian option" and s c s1
  assume IH: "\<And>x y z. f x y = Some z \<Longrightarrow> wf x \<longrightarrow> wf z"
    and eq: "(case findStarredZeroInCol s c of None \<Rightarrow> Some s
       | Some r \<Rightarrow> f (s\<lparr>rowSequence := rowSequence s @ [r],
                         colSequence := colSequence s @ [primedZeros s ! r]\<rparr>)
                      (primedZeros s ! r)) = Some s1"
  show "wf s \<longrightarrow> wf s1"
  proof
    assume wf: "wf s"
    show "wf s1"
    proof (cases "findStarredZeroInCol s c")
      case None
      then show ?thesis using eq wf by simp
    next
      case (Some r)
      let ?s2 = "s\<lparr>rowSequence := rowSequence s @ [r],
                    colSequence := colSequence s @ [primedZeros s ! r]\<rparr>"
      have "f ?s2 (primedZeros s ! r) = Some s1" using eq Some by simp
      moreover have "wf ?s2" using wf by (simp add: wf_def)
      ultimately show ?thesis using IH by blast
    qed
  qed
qed

lemma starSequence_wf: "wf s \<Longrightarrow> wf (starSequence s)"
proof -
  have "length (fold (\<lambda>i st. st[rowSequence s ! i := Some (colSequence s ! i)]) is st) = length st"
    for "is" and st :: "nat option list"
    by (induction "is" arbitrary: st) simp_all
  then show "wf s \<Longrightarrow> wf (starSequence s)" by (simp add: starSequence_def wf_def)
qed

lemma recover_wf: "wf s \<Longrightarrow> wf (recover s)"
  by (simp add: wf_def recover_fields)

lemma augment_wf:
  assumes "augment r c s = Some s1" and "wf s"
  shows "wf s1"
proof -
  obtain s2 where f: "followChain (s\<lparr>rowSequence := [r], colSequence := [c]\<rparr>) c = Some s2"
    and s1: "s1 = recover (starSequence s2)"
    using assms(1) by (auto simp: augment_def)
  have "wf (s\<lparr>rowSequence := [r], colSequence := [c]\<rparr>)" using assms(2) by (simp add: wf_def)
  then have "wf s2" using followChain_wf[OF f] by blast
  then show ?thesis by (simp add: s1 starSequence_wf recover_wf)
qed

lemma noZero_fl_workFrame:
  assumes wfs: "wf s" and wft: "wf t" and eq: "workFrame s = workFrame t"
  shows "workFrame (noZero_fl rnd s) = workFrame (noZero_fl rnd t)"
    and "wf (noZero_fl rnd s)"
proof -
  note F = workFrame_fields[OF eq]
  obtain hs sC where s: "findMinUncoveredCost (rebalanceWorkers (fillColInds s)) = (hs, sC)"
    and ms: "isMinUncovered s hs" and wfC: "wf sC" and sfs: "scratchFrame sC = scratchFrame s"
    and cis: "colInds sC = filter (\<lambda>col. \<not> colCovered s ! col) [0..<numCol s]"
    and ps: "rowPartition (workers s) (numRow s) (workerRows sC)"
    by (rule noZero_search[OF wfs])
  obtain ht tC where t: "findMinUncoveredCost (rebalanceWorkers (fillColInds t)) = (ht, tC)"
    and mt: "isMinUncovered t ht" and sft: "scratchFrame tC = scratchFrame t"
    and cit: "colInds tC = filter (\<lambda>col. \<not> colCovered t ! col) [0..<numCol t]"
    and pt: "rowPartition (workers t) (numRow t) (workerRows tC)"
    by (rule noZero_search[OF wft])
  have "isMinUncovered t hs"
    using ms isMinUncovered_cong[of s t hs] F by simp
  then have h: "ht = hs" using isMinUncovered_unique[OF mt] by simp
  have A: "workFrame x = (scratchFrame x)\<lparr>workers := 0, colInds := colInds x\<rparr>" for x
    by (simp add: workFrame_def scratchFrame_def)
  have B: "(scratchFrame x)\<lparr>workers := 0\<rparr> = scratchFrame (workFrame x)" for x
    by (simp add: workFrame_def scratchFrame_def)
  have ci: "colInds sC = colInds tC" using cis cit F by simp
  have "workFrame sC = (scratchFrame s)\<lparr>workers := 0, colInds := colInds sC\<rparr>"
    by (simp add: A sfs)
  also have "\<dots> = (scratchFrame (workFrame s))\<lparr>colInds := colInds sC\<rparr>"
    by (simp add: B[symmetric])
  also have "\<dots> = (scratchFrame (workFrame t))\<lparr>colInds := colInds tC\<rparr>"
    by (simp add: eq ci)
  also have "\<dots> = (scratchFrame t)\<lparr>workers := 0, colInds := colInds tC\<rparr>"
    by (simp add: B[symmetric])
  also have "\<dots> = workFrame tC" by (simp add: A sft)
  finally have C: "workFrame sC = workFrame tC" .
  define w wr wc where "w = workers tC" and "wr = workerRows tC" and "wc = workerCosts tC"
  have tC: "tC = setWorkers w wr wc sC"
    unfolding w_def wr_def wc_def by (rule workFrame_eq_setWorkers[OF C])
  show "workFrame (noZero_fl rnd s) = workFrame (noZero_fl rnd t)"
  proof (cases hs)
    case Inf
    have "noZero_fl rnd s = sC\<lparr>colCovered := replicate (length (colCovered sC)) True\<rparr>"
      by (simp add: noZero_fl_def s Inf)
    moreover have "noZero_fl rnd t = tC\<lparr>colCovered := replicate (length (colCovered tC)) True\<rparr>"
      by (simp add: noZero_fl_def t h Inf)
    ultimately show ?thesis
      by (simp add: tC setWorkers_fields setWorkers_update workFrame_setWorkers)
  next
    case (Fin x)
    note sf = scratchFrame_fields[OF sfs] and tf = scratchFrame_fields[OF sft]
    have ps': "rowPartition (workers sC) (numRow sC) (workerRows sC)" using ps sf by simp
    have pt': "rowPartition (workers tC) (numRow tC) (workerRows tC)" using pt tf by simp
    have "noZero_fl rnd s = fold (updateCostsRow_fl rnd x) [0..<numRow sC] sC"
      by (simp add: noZero_fl_def s Fin updateCosts_fl_flat[OF ps'])
    moreover have "noZero_fl rnd t = fold (updateCostsRow_fl rnd x) [0..<numRow tC] tC"
      by (simp add: noZero_fl_def t h Fin updateCosts_fl_flat[OF pt'])
    ultimately show ?thesis
      by (simp add: tC setWorkers_fields fold_updateCostsRow_fl_setWorkers workFrame_setWorkers)
  qed
  show "wf (noZero_fl rnd s)"
  proof (cases hs)
    case Inf
    have "noZero_fl rnd s = sC\<lparr>colCovered := replicate (length (colCovered sC)) True\<rparr>"
      by (simp add: noZero_fl_def s Inf)
    then show ?thesis using wfC by (simp add: wf_def)
  next
    case (Fin x)
    note sf = scratchFrame_fields[OF sfs]
    have ps': "rowPartition (workers sC) (numRow sC) (workerRows sC)" using ps sf by simp
    have e: "noZero_fl rnd s = fold (updateCostsRow_fl rnd x) [0..<numRow sC] sC"
      by (simp add: noZero_fl_def s Fin updateCosts_fl_flat[OF ps'])
    note cf = costFrame_fields[OF fold_updateCostsRow_fl_frame[of rnd x "[0..<numRow sC]" sC]]
    show ?thesis
      unfolding e using wfC cf fold_updateCostsRow_fl_lengths[of rnd x "[0..<numRow sC]" sC]
      by (simp add: wf_def)
  qed
qed

lemma iterate_fl_workFrame:
  assumes wfs: "wf s" and wft: "wf t" and eq: "workFrame s = workFrame t"
    and its: "iterate_fl rnd s = Some s'"
  shows "\<exists>t'. iterate_fl rnd t = Some t' \<and> workFrame s' = workFrame t' \<and> wf s' \<and> wf t'"
proof -
  define w wr wc where "w = workers t" and "wr = workerRows t" and "wc = workerCosts t"
  have t: "t = setWorkers w wr wc s"
    unfolding w_def wr_def wc_def by (rule workFrame_eq_setWorkers[OF eq])
  obtain s1 x where p: "primeLoop s = Some (s1, x)"
    using its by (auto simp: iterate_fl_def split: option.splits)
  have pt: "primeLoop t = Some (setWorkers w wr wc s1, x)"
    unfolding t by (rule primeLoop_setWorkers[OF p])
  have wf1: "wf s1" using primeLoop_wf[OF p] wfs by simp
  have wf2: "wf (setWorkers w wr wc s1)" using primeLoop_wf[OF pt] wft by simp
  have e1: "workFrame s1 = workFrame (setWorkers w wr wc s1)" by (simp add: workFrame_setWorkers)
  show ?thesis
  proof (cases x)
    case None
    have a: "s' = noZero_fl rnd s1" using its p None by (simp add: iterate_fl_def)
    have b: "iterate_fl rnd t = Some (noZero_fl rnd (setWorkers w wr wc s1))"
      using pt None by (simp add: iterate_fl_def)
    show ?thesis
      unfolding a b
      using noZero_fl_workFrame[OF wf1 wf2 e1, of rnd] noZero_fl_workFrame(2)[OF wf2 wf1 e1[symmetric], of rnd]
      by simp
  next
    case (Some rc)
    obtain r c where rc: "rc = (r, c)" by (cases rc) auto
    have a: "augment r c s1 = Some s'" using its p Some rc by (simp add: iterate_fl_def)
    have b: "augment r c (setWorkers w wr wc s1) = Some (setWorkers w wr wc s')"
      by (rule augment_setWorkers[OF a])
    have "iterate_fl rnd t = Some (setWorkers w wr wc s')"
      using pt Some rc b by (simp add: iterate_fl_def)
    then show ?thesis
      using augment_wf[OF a wf1] augment_wf[OF b wf2] by (simp add: workFrame_setWorkers)
  qed
qed

lemma assignLoop_fl_workFrame:
  assumes al: "assignLoop_fl rnd s = Some s'"
  shows "\<forall>t. wf s \<and> wf t \<and> workFrame s = workFrame t
           \<longrightarrow> (\<exists>t'. assignLoop_fl rnd t = Some t' \<and> workFrame s' = workFrame t')"
proof (rule assignLoop_fl.raw_induct[where
      P = "\<lambda>r s s'. \<forall>t. wf s \<and> wf t \<and> workFrame s = workFrame t
           \<longrightarrow> (\<exists>t'. assignLoop_fl r t = Some t' \<and> workFrame s' = workFrame t')", OF _ al])
  fix f :: "(real \<Rightarrow> ecost) \<Rightarrow> hungarian \<Rightarrow> hungarian option" and rnd s s'
  assume IH: "\<And>r x y. f r x = Some y \<Longrightarrow>
                \<forall>t. wf x \<and> wf t \<and> workFrame x = workFrame t
                  \<longrightarrow> (\<exists>t'. assignLoop_fl r t = Some t' \<and> workFrame y = workFrame t')"
    and eq: "(if list_all (\<lambda>b. b) (colCovered s) then Some s
              else case iterate_fl rnd s of None \<Rightarrow> None | Some s' \<Rightarrow> f rnd s') = Some s'"
  show "\<forall>t. wf s \<and> wf t \<and> workFrame s = workFrame t
           \<longrightarrow> (\<exists>t'. assignLoop_fl rnd t = Some t' \<and> workFrame s' = workFrame t')"
  proof (intro allI impI)
    fix t assume a: "wf s \<and> wf t \<and> workFrame s = workFrame t"
    then have ws: "wf s" and wt: "wf t" and wf: "workFrame s = workFrame t" by simp_all
    have cc: "colCovered t = colCovered s" using workFrame_fields(3)[OF wf] by simp
    show "\<exists>t'. assignLoop_fl rnd t = Some t' \<and> workFrame s' = workFrame t'"
    proof (cases "list_all (\<lambda>b. b) (colCovered s)")
      case True
      then have "s' = s" using eq by simp
      moreover have "assignLoop_fl rnd t = Some t" using True cc by (simp add: assignLoop_fl.simps)
      ultimately show ?thesis using wf by simp
    next
      case False
      then obtain s1 where it: "iterate_fl rnd s = Some s1" and nx: "f rnd s1 = Some s'"
        using eq by (auto split: option.splits)
      obtain t1 where itt: "iterate_fl rnd t = Some t1" and w1: "workFrame s1 = workFrame t1"
        and o1: "wf s1" and o2: "wf t1"
        using iterate_fl_workFrame[OF ws wt wf it] by blast
      obtain t' where "assignLoop_fl rnd t1 = Some t'" "workFrame s' = workFrame t'"
        using IH[OF nx] o1 o2 w1 by blast
      moreover have "assignLoop_fl rnd t = assignLoop_fl rnd t1"
        using False cc itt by (subst assignLoop_fl.simps) simp
      ultimately show ?thesis by simp
    qed
  qed
qed

lemma compute_fl_workFrame_Some:
  assumes ws: "wf s0" and wt: "wf t0" and eq: "workFrame s0 = workFrame t0"
    and c: "compute_fl rnd s0 = Some res"
  shows "compute_fl rnd t0 = Some res"
proof -
  have t0: "t0 = setWorkers (workers t0) (workerRows t0) (workerCosts t0) s0"
    by (rule workFrame_eq_setWorkers[OF eq])
  have "initialise_fl rnd t0
          = setWorkers (workers t0) (workerRows t0) (workerCosts t0) (initialise_fl rnd s0)"
    by (subst t0) (rule initialise_fl_setWorkers)
  then have wi: "workFrame (initialise_fl rnd s0) = workFrame (initialise_fl rnd t0)"
    by (simp add: workFrame_setWorkers)
  obtain s' where s': "assignLoop_fl rnd (initialise_fl rnd s0) = Some s'" "res = starredZeros s'"
    using c by (auto simp: compute_fl_def)
  obtain t' where t': "assignLoop_fl rnd (initialise_fl rnd t0) = Some t'" "workFrame s' = workFrame t'"
    using assignLoop_fl_workFrame[OF s'(1)] initialise_fl_wf[OF ws] initialise_fl_wf[OF wt] wi
    by blast
  have "starredZeros t' = starredZeros s'" using workFrame_fields(8)[OF t'(2)] by simp
  then show ?thesis using s'(2) t'(1) by (simp add: compute_fl_def)
qed

lemma compute_fl_workFrame:
  assumes ws: "wf s0" and wt: "wf t0" and eq: "workFrame s0 = workFrame t0"
  shows "compute_fl rnd s0 = compute_fl rnd t0"
proof (cases "compute_fl rnd s0")
  case (Some res)
  then show ?thesis using compute_fl_workFrame_Some[OF ws wt eq] by simp
next
  case None
  show ?thesis
  proof (cases "compute_fl rnd t0")
    case (Some res)
    then have "compute_fl rnd s0 = Some res"
      using compute_fl_workFrame_Some[OF wt ws eq[symmetric]] by simp
    then show ?thesis using None by simp
  next
    case N: None
    then show ?thesis using None by simp
  qed
qed
text \<open>
  Claim C8. The solver built for a matrix with any number \<open>hc\<close> of hardware threads (the
  pool has \<open>max hc 1\<close> workers, and \<open>rebalanceWorkers\<close> partitions the rows among them)
  and the solver built for the same matrix with one worker give the same result of
  \<open>compute\<close>, whatever the rounding \<open>rnd\<close> of the cost type: the same vector of
  assignments, so the total cost of the two matchings is the same. In exact arithmetic
  both calls return.
\<close>

theorem worker_count_independent:
  "compute_fl rnd (solver hc rows columns m) = compute_fl rnd (solver 1 rows columns m) \<and>
   (\<exists>res. compute (solver hc rows columns m) = Some res \<and>
          compute (solver 1 rows columns m) = Some res)"
proof
  have w: "wf (solver k rows columns m)" for k
    using solver_fresh[of k rows columns m] by (simp add: fresh_def)
  show "compute_fl rnd (solver hc rows columns m) = compute_fl rnd (solver 1 rows columns m)"
    by (rule compute_fl_workFrame[OF w w solver_workFrame])
  show "\<exists>res. compute (solver hc rows columns m) = Some res \<and>
          compute (solver 1 rows columns m) = Some res"
    by (rule compute_workFrame[OF solver_fresh solver_fresh solver_workFrame])
qed

end
